theory Spec2Isabelle
  imports Main "HOL-Library.Word" "HOL-Library.List_Lexorder"
begin

unbundle bit_operations_syntax

section \<open>Data model\<close>

text \<open>
  Go's \<^verbatim>\<open>int32\<close>, \<^verbatim>\<open>int64\<close> and \<^verbatim>\<open>uint8\<close> are words of that width; a Go
  \<^verbatim>\<open>string\<close> and a \<^verbatim>\<open>[]byte\<close> are byte lists (\<^verbatim>\<open>[]byte(s)\<close> is the identity).
  Go's \<^verbatim>\<open>int\<close> is modelled without a width: as \<open>nat\<close> for lengths and for offsets,
  which the code only ever increases from 0, and as \<open>int\<close> where a value read from
  the file may be negative.
\<close>

type_synonym byte = "8 word"
type_synonym int32 = "32 word"
type_synonym int64 = "64 word"
type_synonym uint8 = "8 word"
type_synonym gostring = "byte list"

datatype err =
    Panic
  | StaticsBufferTooSmall int
  | StaticsDontFit int
  | NoFreeSpace
  | CounterNotAllocated int64
  | CounterNotFound int64
  | LabelNotFound gostring
  | Uninitialized
  | VersionMismatch int32

subsection \<open>offheap.Buffer\<close>

text \<open>
  A buffer is a base address and a capacity over raw memory. \<open>mem\<close> is the memory seen
  from the base address: \<open>mem b k\<close> is the byte at \<open>addr b + k\<close>. The accessors are
  unchecked, as the source's pointer arithmetic is: they do not look at \<open>capacity\<close>.
  Integers are stored little-endian.
\<close>

record Buffer =
  addr :: nat
  capacity :: int
  mem :: "nat \<Rightarrow> byte"

definition le_bytes :: "nat \<Rightarrow> 'a::len word \<Rightarrow> byte list" where
  "le_bytes n w = map (\<lambda>k. ucast (drop_bit (8 * k) w)) [0..<n]"

definition le_word :: "byte list \<Rightarrow> 'a::len word" where
  "le_word bs = foldr (\<lambda>b acc. ucast b OR push_bit 8 acc) bs 0"

definition read_bytes :: "(nat \<Rightarrow> byte) \<Rightarrow> nat \<Rightarrow> nat \<Rightarrow> byte list" where
  "read_bytes m off n = map m [off..<off + n]"

definition write_bytes :: "(nat \<Rightarrow> byte) \<Rightarrow> nat \<Rightarrow> byte list \<Rightarrow> (nat \<Rightarrow> byte)" where
  "write_bytes m off bs = (\<lambda>a. if off \<le> a \<and> a < off + length bs then bs ! (a - off) else m a)"

definition NewBuffer :: "nat \<Rightarrow> int \<Rightarrow> (nat \<Rightarrow> byte) \<Rightarrow> Buffer" where
  "NewBuffer a c m = \<lparr>addr = a, capacity = c, mem = m\<rparr>"

definition Address :: "Buffer \<Rightarrow> nat" where
  "Address b = addr b"

definition Capacity :: "Buffer \<Rightarrow> int" where
  "Capacity b = capacity b"

definition Slice :: "Buffer \<Rightarrow> nat \<Rightarrow> int \<Rightarrow> Buffer" where
  "Slice b offset c = NewBuffer (addr b + offset) c (\<lambda>k. mem b (offset + k))"

definition GetInt32 :: "Buffer \<Rightarrow> nat \<Rightarrow> int32" where
  "GetInt32 b offset = le_word (read_bytes (mem b) offset 4)"

definition GetInt32Volatile :: "Buffer \<Rightarrow> nat \<Rightarrow> int32" where
  "GetInt32Volatile b offset = le_word (read_bytes (mem b) offset 4)"

definition PutInt32 :: "Buffer \<Rightarrow> nat \<Rightarrow> int32 \<Rightarrow> Buffer" where
  "PutInt32 b offset v = b\<lparr>mem := write_bytes (mem b) offset (le_bytes 4 v)\<rparr>"

definition PutInt32Volatile :: "Buffer \<Rightarrow> nat \<Rightarrow> int32 \<Rightarrow> Buffer" where
  "PutInt32Volatile b offset v = b\<lparr>mem := write_bytes (mem b) offset (le_bytes 4 v)\<rparr>"

definition GetInt64 :: "Buffer \<Rightarrow> nat \<Rightarrow> int64" where
  "GetInt64 b offset = le_word (read_bytes (mem b) offset 8)"

definition GetInt64Volatile :: "Buffer \<Rightarrow> nat \<Rightarrow> int64" where
  "GetInt64Volatile b offset = le_word (read_bytes (mem b) offset 8)"

definition PutInt64 :: "Buffer \<Rightarrow> nat \<Rightarrow> int64 \<Rightarrow> Buffer" where
  "PutInt64 b offset v = b\<lparr>mem := write_bytes (mem b) offset (le_bytes 8 v)\<rparr>"

definition PutInt64Volatile :: "Buffer \<Rightarrow> nat \<Rightarrow> int64 \<Rightarrow> Buffer" where
  "PutInt64Volatile b offset v = b\<lparr>mem := write_bytes (mem b) offset (le_bytes 8 v)\<rparr>"

text \<open>Compare-and-swap returns whether it swapped, and the buffer afterwards.\<close>

definition CompareAndSwapInt64 :: "Buffer \<Rightarrow> nat \<Rightarrow> int64 \<Rightarrow> int64 \<Rightarrow> bool \<times> Buffer" where
  "CompareAndSwapInt64 b offset old new =
     (if GetInt64 b offset = old then (True, PutInt64 b offset new) else (False, b))"

text \<open>
  \<^verbatim>\<open>PutSomeBytes\<close> copies \<^verbatim>\<open>bs[start:start+len]\<close>. Both of its callers pass
  \<^verbatim>\<open>start = 0\<close> and a length of at most \<^verbatim>\<open>len(bs)\<close>, where the slice expression
  does not panic.
\<close>

definition PutSomeBytes :: "Buffer \<Rightarrow> nat \<Rightarrow> byte list \<Rightarrow> nat \<Rightarrow> nat \<Rightarrow> Buffer" where
  "PutSomeBytes b offset bs start len =
     b\<lparr>mem := write_bytes (mem b) offset (take len (drop start bs))\<rparr>"

definition PutBytes :: "Buffer \<Rightarrow> nat \<Rightarrow> byte list \<Rightarrow> Buffer" where
  "PutBytes b offset bs = PutSomeBytes b offset bs 0 (length bs)"

text \<open>
  \<^verbatim>\<open>GetBytes\<close> allocates \<^verbatim>\<open>make([]byte, length)\<close>, which panics on a negative length.
\<close>

definition GetBytes :: "Buffer \<Rightarrow> nat \<Rightarrow> int \<Rightarrow> err + byte list" where
  "GetBytes b offset len =
     (if len < 0 then Inl Panic else Inr (read_bytes (mem b) offset (nat len)))"

definition GetString :: "Buffer \<Rightarrow> nat \<Rightarrow> int \<Rightarrow> err + gostring" where
  "GetString b offset len = GetBytes b offset len"

subsection \<open>Layout constants and helpers\<close>

abbreviation (input) CountersVersion :: int32 where "CountersVersion \<equiv> 1"

abbreviation (input) sizeOfInt32 :: nat where "sizeOfInt32 \<equiv> 4"
abbreviation (input) sizeOfInt64 :: nat where "sizeOfInt64 \<equiv> 8"
abbreviation (input) sizeOfCacheLine :: nat where "sizeOfCacheLine \<equiv> 64"

abbreviation (input) headerCountersVersionOffset :: nat where
  "headerCountersVersionOffset \<equiv> 0"
abbreviation (input) headerStaticsLengthOffset :: nat where
  "headerStaticsLengthOffset \<equiv> headerCountersVersionOffset + sizeOfInt32"
abbreviation (input) headerMetadataLengthOffset :: nat where
  "headerMetadataLengthOffset \<equiv> headerStaticsLengthOffset + sizeOfInt32"
abbreviation (input) headerValuesLengthOffset :: nat where
  "headerValuesLengthOffset \<equiv> headerMetadataLengthOffset + sizeOfInt32"
abbreviation (input) headerPidOffsert :: nat where
  "headerPidOffsert \<equiv> headerValuesLengthOffset + sizeOfInt32"
abbreviation (input) headerStartTimeOffsert :: nat where
  "headerStartTimeOffsert \<equiv> headerPidOffsert + sizeOfInt64"

text \<open>\<^verbatim>\<open>Align\<close> is \<^verbatim>\<open>(v + alignment - 1) &^ (alignment - 1)\<close> on Go's \<^verbatim>\<open>int\<close>.\<close>

definition Align :: "int \<Rightarrow> int \<Rightarrow> int" where
  "Align v alignment = (v + alignment - 1) AND NOT (alignment - 1)"

definition HeaderLength :: int where
  "HeaderLength = Align (int (headerStartTimeOffsert + sizeOfInt64)) (int (sizeOfCacheLine * 2))"

abbreviation (input) staticsNumberOfStaticsOffset :: nat where
  "staticsNumberOfStaticsOffset \<equiv> 0"
abbreviation (input) staticsRecordsOffset :: nat where
  "staticsRecordsOffset \<equiv> staticsNumberOfStaticsOffset + sizeOfInt32"

abbreviation (input) staticsLabelLengthOffset :: nat where
  "staticsLabelLengthOffset \<equiv> 0"
abbreviation (input) staticsValueLengthOffset :: nat where
  "staticsValueLengthOffset \<equiv> staticsLabelLengthOffset + sizeOfInt32"
abbreviation (input) staticsLabelOffset :: nat where
  "staticsLabelOffset \<equiv> staticsValueLengthOffset + sizeOfInt32"

definition staticsRecordLength :: "nat \<Rightarrow> nat \<Rightarrow> nat" where
  "staticsRecordLength labelLength valueLength =
     nat (Align (int (staticsLabelOffset + labelLength + valueLength)) (int sizeOfInt32))"

abbreviation (input) metadataLabelMaxLength :: nat where
  "metadataLabelMaxLength \<equiv> sizeOfCacheLine * 6 - sizeOfInt32"
abbreviation (input) metadataCounterIDStatusOffset :: nat where
  "metadataCounterIDStatusOffset \<equiv> 0"
abbreviation (input) metadataLabelLengthOffset :: nat where
  "metadataLabelLengthOffset \<equiv> sizeOfCacheLine * 2"
abbreviation (input) metadataLabelOffset :: nat where
  "metadataLabelOffset \<equiv> metadataLabelLengthOffset + sizeOfInt32"
abbreviation (input) metadataRecordLength :: nat where
  "metadataRecordLength \<equiv> metadataLabelOffset + metadataLabelMaxLength"

abbreviation (input) valuesCounterLength :: nat where
  "valuesCounterLength \<equiv> sizeOfCacheLine * 2"

abbreviation (input) counterStatusNotUsed :: uint8 where "counterStatusNotUsed \<equiv> 0"
abbreviation (input) counterStatusAllocationInProgress :: uint8 where "counterStatusAllocationInProgress \<equiv> 1"
abbreviation (input) counterStatusAllocated :: uint8 where "counterStatusAllocated \<equiv> 2"
abbreviation (input) counterStatusFreed :: uint8 where "counterStatusFreed \<equiv> 3"

definition makeIDStatus :: "int64 \<Rightarrow> uint8 \<Rightarrow> int64" where
  "makeIDStatus cid status = push_bit 8 cid OR ucast status"

definition extractStatus :: "int64 \<Rightarrow> uint8" where
  "extractStatus idStatus = ucast (idStatus AND 0xff)"

definition extractID :: "int64 \<Rightarrow> int64" where
  "extractID idStatus = drop_bit 8 idStatus"

text \<open>
  The four sections are disjoint regions of the mapped file: \<^verbatim>\<open>NewEncoder\<close> and
  \<^verbatim>\<open>NewDecoder\<close> slice them one behind the other. Each buffer of a layout carries the
  memory of its own region, so a store to one section leaves the others as they are.
  \<^verbatim>\<open>Encoder\<close> and \<^verbatim>\<open>Decoder\<close> are structs with the layout as their only field; their
  methods take the layout.
\<close>

record Layout =
  Header :: Buffer
  Statics :: Buffer
  CountersMetadata :: Buffer
  CountersValues :: Buffer

subsection \<open>Decoder construction and header queries\<close>

text \<open>
  The decoder slices the mapped buffer by the three lengths of the header. The lengths
  are \<^verbatim>\<open>int32\<close> values read as signed. \<^verbatim>\<open>uintptr(x)\<close> is \<open>nat x\<close> here: it is exact
  when the header's lengths are not negative, as a writer leaves them.
\<close>

definition NewDecoder :: "Buffer \<Rightarrow> Layout" where
  "NewDecoder buf =
     (let header = Slice buf 0 HeaderLength;
          staticsLength = sint (GetInt32Volatile header headerStaticsLengthOffset);
          metadataLength = sint (GetInt32 header headerMetadataLengthOffset);
          valuesLength = sint (GetInt32 header headerValuesLengthOffset)
      in \<lparr>Header = header,
          Statics = Slice buf (nat HeaderLength) staticsLength,
          CountersMetadata = Slice buf (nat (HeaderLength + staticsLength)) metadataLength,
          CountersValues =
            Slice buf (nat (HeaderLength + (staticsLength + metadataLength))) valuesLength\<rparr>)"

definition Version :: "Layout \<Rightarrow> int32" where
  "Version d = GetInt32Volatile (Header d) headerCountersVersionOffset"

definition Pid :: "Layout \<Rightarrow> int64" where
  "Pid d = GetInt64Volatile (Header d) headerPidOffsert"

definition StartTime :: "Layout \<Rightarrow> int64" where
  "StartTime d = GetInt64Volatile (Header d) headerStartTimeOffsert"

subsection \<open>Reader\<close>

record Reader =
  r_buffer :: Buffer
  r_decoder :: Layout

definition NewReader :: "Buffer \<Rightarrow> err + Reader" where
  "NewReader buf =
     (let decoder = NewDecoder buf;
          version = Version decoder
      in if version = 0 then Inl Uninitialized
         else if version \<noteq> CountersVersion then Inl (VersionMismatch version)
         else Inr \<lparr>r_buffer = buf, r_decoder = decoder\<rparr>)"

text \<open>
  \<^verbatim>\<open>Reader.Close\<close> and \<^verbatim>\<open>Writer.Close\<close> end in \<^verbatim>\<open>mmap.Unmap\<close>, a \<^verbatim>\<open>munmap\<close> system call
  on the buffer's address and capacity. The process's system calls are kept as a list,
  oldest first; a call appends to it.
\<close>

datatype syscall = Munmap nat int

definition Unmap :: "Buffer \<Rightarrow> syscall list \<Rightarrow> syscall list" where
  "Unmap buf calls = calls @ [Munmap (Address buf) (Capacity buf)]"


subsection \<open>Encoder: section sizes and construction\<close>

text \<open>
  A Go \<^verbatim>\<open>map[string]string\<close> is an association list whose keys are distinct; the
  order of the list is the order in which \<^verbatim>\<open>range\<close> happens to visit the map.
  \<open>lookup\<close> is \<^verbatim>\<open>statics[label]\<close>, the empty string for a missing key.
  \<^verbatim>\<open>sort.Strings\<close> sorts in ascending byte order, which is the order of byte lists.
\<close>

type_synonym statics = "(gostring \<times> gostring) list"

definition lookup :: "statics \<Rightarrow> gostring \<Rightarrow> gostring" where
  "lookup statics label = (case map_of statics label of Some v \<Rightarrow> v | None \<Rightarrow> [])"

definition StaticsLength :: "statics \<Rightarrow> int" where
  "StaticsLength statics =
     (if length statics = 0 then int staticsRecordsOffset
      else Align
        (int (fold (\<lambda>label l. l + staticsRecordLength (length label) (length (lookup statics label)))
                (sort (map fst statics)) staticsRecordsOffset))
        (int (sizeOfCacheLine * 2)))"

definition MetadataLength :: "int \<Rightarrow> int" where
  "MetadataLength numberOfCounters = numberOfCounters * int metadataRecordLength"

definition ValuesLength :: "int \<Rightarrow> int" where
  "ValuesLength numberOfCounters = numberOfCounters * int valuesCounterLength"

definition NewEncoderWithBuffers :: "Buffer \<Rightarrow> Buffer \<Rightarrow> Buffer \<Rightarrow> Buffer \<Rightarrow> Layout" where
  "NewEncoderWithBuffers header statics countersMetadata countersValues =
     (let header1 = PutInt32 header headerStaticsLengthOffset (word_of_int (Capacity statics));
          header2 = PutInt32 header1 headerMetadataLengthOffset (word_of_int (Capacity countersMetadata));
          header3 = PutInt32 header2 headerValuesLengthOffset (word_of_int (Capacity countersValues))
      in \<lparr>Header = header3, Statics = statics,
          CountersMetadata = countersMetadata, CountersValues = countersValues\<rparr>)"

definition NewEncoder :: "Buffer \<Rightarrow> int \<Rightarrow> int \<Rightarrow> int \<Rightarrow> Layout" where
  "NewEncoder buf staticsLength metadataLength valuesLength =
     NewEncoderWithBuffers (Slice buf 0 HeaderLength)
       (Slice buf (nat HeaderLength) staticsLength)
       (Slice buf (nat (HeaderLength + staticsLength)) metadataLength)
       (Slice buf (nat (HeaderLength + staticsLength + metadataLength)) valuesLength)"

definition SetVersion :: "Layout \<Rightarrow> int32 \<Rightarrow> Layout" where
  "SetVersion e v = e\<lparr>Header := PutInt32Volatile (Header e) headerCountersVersionOffset v\<rparr>"

definition SetPid :: "Layout \<Rightarrow> int64 \<Rightarrow> Layout" where
  "SetPid e p = e\<lparr>Header := PutInt64Volatile (Header e) headerPidOffsert p\<rparr>"

definition SetStartTime :: "Layout \<Rightarrow> int64 \<Rightarrow> Layout" where
  "SetStartTime e t = e\<lparr>Header := PutInt64Volatile (Header e) headerStartTimeOffsert t\<rparr>"

subsection \<open>Encoder: statics\<close>

text \<open>
  \<^verbatim>\<open>SetStatics\<close> reads nothing from the buffer. The model computes the stores it issues,
  in program order, each one naming the \<^verbatim>\<open>Buffer\<close> method the source calls, and then
  executes them on the statics buffer in that order. The first component of the result
  is the returned error, \<open>None\<close> for \<^verbatim>\<open>nil\<close>; the stores issued before an error stay
  in the buffer.
\<close>

datatype store =
    StorePutInt32 nat int32
  | StorePutInt32Volatile nat int32
  | StorePutBytes nat "byte list"

fun exec_store :: "Buffer \<Rightarrow> store \<Rightarrow> Buffer" where
  "exec_store b (StorePutInt32 offset v) = PutInt32 b offset v"
| "exec_store b (StorePutInt32Volatile offset v) = PutInt32Volatile b offset v"
| "exec_store b (StorePutBytes offset bs) = PutBytes b offset bs"

definition exec_stores :: "Buffer \<Rightarrow> store list \<Rightarrow> Buffer" where
  "exec_stores b sts = foldl exec_store b sts"

fun SetStatics_loop :: "int \<Rightarrow> statics \<Rightarrow> gostring list \<Rightarrow> nat \<Rightarrow> err option \<times> store list" where
  "SetStatics_loop cap statics [] offset = (None, [])"
| "SetStatics_loop cap statics (label # labels) offset =
     (let val = lookup statics label;
          labelBytes = label;
          valueBytes = val;
          recordLength = staticsRecordLength (length labelBytes) (length valueBytes)
      in if int (offset + recordLength) > cap then (Some (StaticsDontFit cap), [])
         else (let rest = SetStatics_loop cap statics labels (offset + recordLength)
               in (fst rest,
                   [StorePutBytes (offset + staticsLabelOffset) labelBytes,
                    StorePutBytes (offset + staticsLabelOffset + length labelBytes) valueBytes,
                    StorePutInt32 (offset + staticsLabelLengthOffset) (word_of_nat (length labelBytes)),
                    StorePutInt32Volatile (offset + staticsValueLengthOffset)
                      (word_of_nat (length valueBytes))]
                   @ snd rest)))"

definition SetStatics_stores :: "int \<Rightarrow> statics \<Rightarrow> err option \<times> store list" where
  "SetStatics_stores cap statics =
     (let offset = 0
      in if length statics = 0 then (None, [StorePutInt32Volatile offset 0])
         else if int (offset + staticsRecordsOffset) > cap then (Some (StaticsBufferTooSmall cap), [])
         else (let labels = sort (map fst statics);
                   rest = SetStatics_loop cap statics labels staticsRecordsOffset
               in (fst rest, StorePutInt32Volatile offset (word_of_nat (length labels)) # snd rest)))"

definition SetStatics :: "Layout \<Rightarrow> statics \<Rightarrow> err option \<times> Layout" where
  "SetStatics e statics =
     (let statx = Statics e;
          r = SetStatics_stores (Capacity statx) statics
      in (fst r, e\<lparr>Statics := exec_stores statx (snd r)\<rparr>))"

subsection \<open>Encoder: counters\<close>

text \<open>
  The loops run over the metadata offset. A failed compare-and-swap and a changed
  id-status word make the source \<^verbatim>\<open>continue\<close> on the same slot; those branches are
  recursive calls at the same offset. With one thread on the buffer they are never
  taken, which is what the termination proofs show.
\<close>

function AddCounter_loop ::
  "Layout \<Rightarrow> int64 \<Rightarrow> int64 \<Rightarrow> gostring \<Rightarrow> nat \<Rightarrow> nat \<Rightarrow> (err + nat) \<times> Layout" where
  "AddCounter_loop e cid initialValue label metadataOffset valueOffset =
     (let metadata = CountersMetadata e;
          vals = CountersValues e
      in if int metadataOffset < Capacity metadata then
           (let idStatusOffset = metadataOffset + metadataCounterIDStatusOffset;
                idStatus = GetInt64Volatile metadata idStatusOffset;
                status = extractStatus idStatus
            in if status = counterStatusNotUsed \<or> status = counterStatusFreed then
                 (let inProgressIDStatus = makeIDStatus cid counterStatusAllocationInProgress;
                      swapped = CompareAndSwapInt64 metadata idStatusOffset idStatus inProgressIDStatus
                  in if fst swapped then
                       (let labelBytes = label;
                            labelLength = (if metadataLabelMaxLength < length labelBytes
                                           then metadataLabelMaxLength else length labelBytes);
                            metadata1 = PutInt32 (snd swapped) (metadataOffset + metadataLabelLengthOffset)
                                          (word_of_nat labelLength);
                            metadata2 = PutSomeBytes metadata1 (metadataOffset + metadataLabelOffset)
                                          labelBytes 0 labelLength;
                            vals1 = PutInt64 vals valueOffset initialValue;
                            allocatedIDStatus = makeIDStatus cid counterStatusAllocated;
                            metadata3 = PutInt64Volatile metadata2 idStatusOffset allocatedIDStatus
                        in (Inr valueOffset, e\<lparr>CountersMetadata := metadata3, CountersValues := vals1\<rparr>))
                     else AddCounter_loop (e\<lparr>CountersMetadata := snd swapped\<rparr>)
                            cid initialValue label metadataOffset valueOffset)
               else AddCounter_loop e cid initialValue label
                      (metadataOffset + metadataRecordLength) (valueOffset + valuesCounterLength))
         else (Inl NoFreeSpace, e))"
  by pat_completeness auto
termination
  by (relation "measure (\<lambda>(e, cid, initialValue, label, metadataOffset, valueOffset).
        nat (Capacity (CountersMetadata e) - int metadataOffset))")
     (auto simp: CompareAndSwapInt64_def GetInt64Volatile_def GetInt64_def Capacity_def)

definition AddCounter :: "Layout \<Rightarrow> int64 \<Rightarrow> int64 \<Rightarrow> gostring \<Rightarrow> (err + nat) \<times> Layout" where
  "AddCounter e cid initialValue label = AddCounter_loop e cid initialValue label 0 0"

function FreeCounter_loop :: "Layout \<Rightarrow> int64 \<Rightarrow> nat \<Rightarrow> bool \<times> Layout" where
  "FreeCounter_loop e cid metadataOffset =
     (let metadata = CountersMetadata e
      in if int metadataOffset < Capacity metadata then
           (let idStatusOffset = metadataOffset + metadataCounterIDStatusOffset;
                idStatus = GetInt64Volatile metadata idStatusOffset;
                currentID = extractID idStatus
            in if currentID = cid then
                 (let status = extractStatus idStatus
                  in if status = counterStatusAllocated then
                       (let newIDStatus = makeIDStatus cid counterStatusFreed;
                            swapped = CompareAndSwapInt64 metadata idStatusOffset idStatus newIDStatus
                        in (True, e\<lparr>CountersMetadata := snd swapped\<rparr>))
                     else (False, e))
               else FreeCounter_loop e cid (metadataOffset + metadataRecordLength))
         else (False, e))"
  by pat_completeness auto
termination
  by (relation "measure (\<lambda>(e, cid, metadataOffset).
        nat (Capacity (CountersMetadata e) - int metadataOffset))") auto

definition FreeCounter :: "Layout \<Rightarrow> int64 \<Rightarrow> bool \<times> Layout" where
  "FreeCounter e cid = FreeCounter_loop e cid 0"

subsection \<open>Decoder: statics\<close>

text \<open>
  A consumer is a Go closure: it sees the record, may change its own state \<open>'s\<close>, and
  answers whether to go on. The iterations return the consumer's state at the end, or
  the panic of a \<^verbatim>\<open>GetString\<close> on a negative length. The loop counter runs from 0 to
  \<^verbatim>\<open>numOfStatics\<close>; the model counts the iterations that remain.
\<close>

fun ForEachStatic_loop ::
  "Buffer \<Rightarrow> (gostring \<Rightarrow> gostring \<Rightarrow> 's \<Rightarrow> bool \<times> 's) \<Rightarrow> nat \<Rightarrow> nat \<Rightarrow> 's \<Rightarrow> err + 's" where
  "ForEachStatic_loop statics consumer 0 offset s = Inr s"
| "ForEachStatic_loop statics consumer (Suc remaining) offset s =
     (let labelLen = sint (GetInt32 statics (offset + staticsLabelLengthOffset));
          valueLen = sint (GetInt32 statics (offset + staticsValueLengthOffset))
      in case GetString statics (offset + staticsLabelOffset) labelLen of
           Inl e \<Rightarrow> Inl e
         | Inr label \<Rightarrow>
             (case GetString statics (offset + staticsLabelOffset + nat labelLen) valueLen of
                Inl e \<Rightarrow> Inl e
              | Inr val \<Rightarrow>
                  (let r = consumer label val s
                   in if \<not> fst r then Inr (snd r)
                      else (let recordLen = staticsRecordLength (nat labelLen) (nat valueLen)
                            in ForEachStatic_loop statics consumer remaining
                                 (offset + recordLen) (snd r)))))"

definition ForEachStatic ::
  "Layout \<Rightarrow> (gostring \<Rightarrow> gostring \<Rightarrow> 's \<Rightarrow> bool \<times> 's) \<Rightarrow> 's \<Rightarrow> err + 's" where
  "ForEachStatic d consumer s =
     (let statics = Statics d;
          numOfStatics = sint (GetInt32Volatile statics staticsNumberOfStaticsOffset)
      in ForEachStatic_loop statics consumer (nat numOfStatics) staticsRecordsOffset s)"

fun GetStaticValue_loop :: "Buffer \<Rightarrow> gostring \<Rightarrow> nat \<Rightarrow> nat \<Rightarrow> err + gostring" where
  "GetStaticValue_loop statics label 0 offset = Inl (LabelNotFound label)"
| "GetStaticValue_loop statics label (Suc remaining) offset =
     (let staticLabelBytes = label;
          labelLength = sint (GetInt32 statics (offset + staticsLabelLengthOffset));
          valueLength = sint (GetInt32 statics (offset + staticsValueLengthOffset))
      in case GetBytes statics (offset + staticsLabelOffset) labelLength of
           Inl e \<Rightarrow> Inl e
         | Inr labelBytes \<Rightarrow>
             if staticLabelBytes = labelBytes then
               (case GetBytes statics (offset + staticsLabelOffset + nat labelLength) valueLength of
                  Inl e \<Rightarrow> Inl e
                | Inr valueBytes \<Rightarrow> Inr valueBytes)
             else (let recordLength = staticsRecordLength (nat labelLength) (nat valueLength)
                   in GetStaticValue_loop statics label remaining (offset + recordLength)))"

definition GetStaticValue :: "Layout \<Rightarrow> gostring \<Rightarrow> err + gostring" where
  "GetStaticValue d label =
     (let statics = Statics d;
          numOfStatics = sint (GetInt32Volatile statics staticsNumberOfStaticsOffset)
      in GetStaticValue_loop statics label (nat numOfStatics) staticsRecordsOffset)"

subsection \<open>Decoder: counters\<close>

function ForEachCounter_loop ::
  "Layout \<Rightarrow> (int64 \<Rightarrow> int64 \<Rightarrow> gostring \<Rightarrow> 's \<Rightarrow> bool \<times> 's) \<Rightarrow> nat \<Rightarrow> nat \<Rightarrow> 's \<Rightarrow> err + 's" where
  "ForEachCounter_loop d consumer metadataOffset valueOffset s =
     (let metadata = CountersMetadata d;
          vals = CountersValues d
      in if int metadataOffset < Capacity metadata then
           (let idStatusOffset = metadataOffset + metadataCounterIDStatusOffset;
                idStatus = GetInt64Volatile metadata idStatusOffset;
                status = extractStatus idStatus
            in if status = counterStatusNotUsed then Inr s
               else if status = counterStatusAllocated then
                 (let cid = extractID idStatus;
                      labelLength = sint (GetInt32 metadata (metadataOffset + metadataLabelLengthOffset))
                  in case GetString metadata (metadataOffset + metadataLabelOffset) labelLength of
                       Inl e \<Rightarrow> Inl e
                     | Inr label \<Rightarrow>
                         (let val = GetInt64 vals valueOffset
                          in if GetInt64Volatile metadata idStatusOffset = idStatus then
                               (let r = consumer cid val label s
                                in if \<not> fst r then Inr (snd r)
                                   else ForEachCounter_loop d consumer
                                          (metadataOffset + metadataRecordLength)
                                          (valueOffset + valuesCounterLength) (snd r))
                             else ForEachCounter_loop d consumer
                                    (metadataOffset + metadataRecordLength)
                                    (valueOffset + valuesCounterLength) s))
               else ForEachCounter_loop d consumer
                      (metadataOffset + metadataRecordLength) (valueOffset + valuesCounterLength) s)
         else Inr s)"
  by pat_completeness auto
termination
  by (relation "measure (\<lambda>(d, consumer, metadataOffset, valueOffset, s).
        nat (Capacity (CountersMetadata d) - int metadataOffset))") auto

definition ForEachCounter ::
  "Layout \<Rightarrow> (int64 \<Rightarrow> int64 \<Rightarrow> gostring \<Rightarrow> 's \<Rightarrow> bool \<times> 's) \<Rightarrow> 's \<Rightarrow> err + 's" where
  "ForEachCounter d consumer s = ForEachCounter_loop d consumer 0 0 s"





subsection \<open>Writer and Counter\<close>

text \<open>
  The writer's \<^verbatim>\<open>values\<close> field is the encoder's values buffer, \<open>CountersValues\<close> of
  \<open>w_encoder\<close>; a counter's \<^verbatim>\<open>owner\<close> is the writer passed to the operation.
  \<^verbatim>\<open>atomic.AddInt64\<close> returns the new value; \<^verbatim>\<open>atomic.CompareAndSwapInt32\<close> on the closed
  flag is a test and a store.
\<close>

record Writer =
  w_filename :: gostring
  w_idSequence :: int64
  w_closed :: int32
  w_buffer :: Buffer
  w_encoder :: Layout

record Counter =
  c_id :: int64
  c_label :: gostring
  c_valueOffset :: nat
  c_closed :: int32

text \<open>
  \<^verbatim>\<open>NewWriterForFile\<close> after \<^verbatim>\<open>mmap.MapNewFile\<close> has returned the mapped buffer; the process
  id and the start time are what the operating system answered.
\<close>

abbreviation (input) MaxPossibleNumberOfCounters :: int where
  "MaxPossibleNumberOfCounters \<equiv> 10000"

definition NewWriterForFile ::
  "gostring \<Rightarrow> statics \<Rightarrow> int \<Rightarrow> Buffer \<Rightarrow> int64 \<Rightarrow> int64 \<Rightarrow> Writer option" where
  "NewWriterForFile filename statics maxNumbersOfCounters buf pid startTime =
     (if maxNumbersOfCounters < 0 \<or> maxNumbersOfCounters > MaxPossibleNumberOfCounters then None
      else (let staticsLength = StaticsLength statics;
                metadataLength = MetadataLength maxNumbersOfCounters;
                valuesLength = ValuesLength maxNumbersOfCounters;
                encoder = NewEncoder buf staticsLength metadataLength valuesLength;
                encoder1 = SetPid encoder pid;
                encoder2 = SetStartTime encoder1 startTime;
                encoder3 = snd (SetStatics encoder2 statics);
                encoder4 = SetVersion encoder3 CountersVersion
            in Some \<lparr>w_filename = filename, w_idSequence = - 1, w_closed = 0,
                      w_buffer = buf, w_encoder = encoder4\<rparr>))"

definition AddCounterWithInitialValue ::
  "Writer \<Rightarrow> gostring \<Rightarrow> int64 \<Rightarrow> (err + Counter) \<times> Writer" where
  "AddCounterWithInitialValue w label initialValue =
     (let cid = w_idSequence w + 1;
          w1 = w\<lparr>w_idSequence := cid\<rparr>;
          r = AddCounter (w_encoder w1) cid initialValue label;
          w2 = w1\<lparr>w_encoder := snd r\<rparr>
      in case fst r of
           Inl e \<Rightarrow> (Inl e, w2)
         | Inr valueOffset \<Rightarrow>
             (Inr \<lparr>c_id = cid, c_label = label, c_valueOffset = valueOffset, c_closed = 0\<rparr>, w2))"

definition Writer_AddCounter :: "Writer \<Rightarrow> gostring \<Rightarrow> (err + Counter) \<times> Writer" where
  "Writer_AddCounter w label = AddCounterWithInitialValue w label 0"

definition Writer_Close :: "Writer \<Rightarrow> syscall list \<Rightarrow> Writer \<times> syscall list" where
  "Writer_Close w calls =
     (if \<not> (w_closed w = 0) then (w, calls)
      else (w\<lparr>w_closed := 1\<rparr>, Unmap (w_buffer w) calls))"

definition Counter_Close :: "Counter \<Rightarrow> Writer \<Rightarrow> Counter \<times> Writer" where
  "Counter_Close c w =
     (if \<not> (c_closed c = 0) then (c, w)
      else (c\<lparr>c_closed := 1\<rparr>, w\<lparr>w_encoder := snd (FreeCounter (w_encoder w) (c_id c))\<rparr>))"

subsection \<open>Slots\<close>

text \<open>
  Slot \<open>i\<close> of the metadata section starts at offset \<open>i * metadataRecordLength\<close>, slot
  \<open>i\<close> of the values section at \<open>i * valuesCounterLength\<close>. The fields of a slot are
  read with the accessors the decoder uses. A slot is free for the allocator when its
  status is NotUsed or Freed.
\<close>

definition slotWord :: "Buffer \<Rightarrow> nat \<Rightarrow> int64" where
  "slotWord metadata i = GetInt64Volatile metadata (i * metadataRecordLength + metadataCounterIDStatusOffset)"

definition slotStatus :: "Buffer \<Rightarrow> nat \<Rightarrow> uint8" where
  "slotStatus metadata i = extractStatus (slotWord metadata i)"

definition slotID :: "Buffer \<Rightarrow> nat \<Rightarrow> int64" where
  "slotID metadata i = extractID (slotWord metadata i)"

definition slotLabelLength :: "Buffer \<Rightarrow> nat \<Rightarrow> int" where
  "slotLabelLength metadata i = sint (GetInt32 metadata (i * metadataRecordLength + metadataLabelLengthOffset))"

definition slotLabel :: "Buffer \<Rightarrow> nat \<Rightarrow> err + gostring" where
  "slotLabel metadata i =
     GetString metadata (i * metadataRecordLength + metadataLabelOffset) (slotLabelLength metadata i)"

definition slotValue :: "Buffer \<Rightarrow> nat \<Rightarrow> int64" where
  "slotValue vals i = GetInt64 vals (i * valuesCounterLength)"

definition slotFree :: "Buffer \<Rightarrow> nat \<Rightarrow> bool" where
  "slotFree metadata i =
     (slotStatus metadata i = counterStatusNotUsed \<or> slotStatus metadata i = counterStatusFreed)"

text \<open>
  A freshly mapped file is all zero. \<open>emptyLayout n\<close> is the layout of such a file for
  \<open>n\<close> counters and no statics, before the encoder has written to it.
\<close>

definition zeroBuffer :: "int \<Rightarrow> Buffer" where
  "zeroBuffer c = NewBuffer 0 c (\<lambda>_. 0)"

definition emptyLayout :: "nat \<Rightarrow> Layout" where
  "emptyLayout n = \<lparr>Header = zeroBuffer HeaderLength, Statics = zeroBuffer 4,
     CountersMetadata = zeroBuffer (MetadataLength (int n)),
     CountersValues = zeroBuffer (ValuesLength (int n))\<rparr>"

subsection \<open>Sequences of encoder operations\<close>

text \<open>
  A history of the metadata section is a list of \<^verbatim>\<open>AddCounter\<close> and \<^verbatim>\<open>FreeCounter\<close> calls,
  run one after the other. \<open>allocate_slot\<close> is the metadata buffer after the stores of
  a successful \<^verbatim>\<open>AddCounter\<close> on slot \<open>i\<close>. \<open>slots_inv\<close> is the invariant of the
  section between calls.
\<close>

datatype op = OpAddCounter int64 int64 gostring | OpFreeCounter int64

fun apply_op :: "Layout \<Rightarrow> op \<Rightarrow> Layout" where
  "apply_op e (OpAddCounter cid initialValue label) = snd (AddCounter e cid initialValue label)"
| "apply_op e (OpFreeCounter cid) = snd (FreeCounter e cid)"

definition run_ops :: "Layout \<Rightarrow> op list \<Rightarrow> Layout" where
  "run_ops e ops = foldl apply_op e ops"

definition allocate_slot :: "Buffer \<Rightarrow> nat \<Rightarrow> int64 \<Rightarrow> gostring \<Rightarrow> Buffer" where
  "allocate_slot metadata i cid label =
     PutInt64Volatile
       (PutSomeBytes
          (PutInt32
             (PutInt64 metadata (i * metadataRecordLength)
                (makeIDStatus cid counterStatusAllocationInProgress))
             (i * metadataRecordLength + metadataLabelLengthOffset)
             (word_of_nat (min (length label) metadataLabelMaxLength)))
          (i * metadataRecordLength + metadataLabelOffset) label 0
          (min (length label) metadataLabelMaxLength))
       (i * metadataRecordLength) (makeIDStatus cid counterStatusAllocated)"

definition slots_inv :: "nat \<Rightarrow> Buffer \<Rightarrow> bool" where
  "slots_inv n md \<longleftrightarrow>
     Capacity md = int (n * metadataRecordLength)
     \<and> (\<forall>i<n. slotStatus md i = counterStatusNotUsed \<or> slotStatus md i = counterStatusAllocated
              \<or> slotStatus md i = counterStatusFreed)
     \<and> (\<forall>i j. i \<le> j \<and> j < n \<and> slotStatus md i = counterStatusNotUsed
              \<longrightarrow> slotStatus md j = counterStatusNotUsed)"

subsection \<open>Iterating and looking up, as described\<close>

text \<open>
  The stored label of a slot is as many bytes of its label field as its label-length
  field says.
\<close>

definition storedLabel :: "Buffer \<Rightarrow> nat \<Rightarrow> gostring" where
  "storedLabel metadata i =
     read_bytes (mem metadata) (i * metadataRecordLength + metadataLabelOffset)
       (nat (slotLabelLength metadata i))"

text \<open>
  What the iteration over the counters is to do, in the words of its description: the
  live slots are those strictly before the first NotUsed slot; the sink is invoked once
  for each Allocated live slot, in ascending order, with the slot's id, the value of the
  paired values slot and the stored label; the iteration ends when the sink answers
  false.
\<close>

definition live_slots :: "nat \<Rightarrow> Buffer \<Rightarrow> nat list" where
  "live_slots n metadata = takeWhile (\<lambda>i. slotStatus metadata i \<noteq> counterStatusNotUsed) [0..<n]"

definition allocated_live_slots :: "nat \<Rightarrow> Buffer \<Rightarrow> nat list" where
  "allocated_live_slots n metadata =
     filter (\<lambda>i. slotStatus metadata i = counterStatusAllocated) (live_slots n metadata)"

fun feed :: "('a \<Rightarrow> 's \<Rightarrow> bool \<times> 's) \<Rightarrow> 'a list \<Rightarrow> 's \<Rightarrow> 's" where
  "feed sink [] s = s"
| "feed sink (x # xs) s = (let r = sink x s in if fst r then feed sink xs (snd r) else snd r)"

definition spec_ForEachCounter ::
  "nat \<Rightarrow> Layout \<Rightarrow> (int64 \<Rightarrow> int64 \<Rightarrow> gostring \<Rightarrow> 's \<Rightarrow> bool \<times> 's) \<Rightarrow> 's \<Rightarrow> 's" where
  "spec_ForEachCounter n d sink s =
     feed (\<lambda>i. sink (slotID (CountersMetadata d) i) (slotValue (CountersValues d) i)
                  (storedLabel (CountersMetadata d) i))
       (allocated_live_slots n (CountersMetadata d)) s"

text \<open>A sink that records what it is given and always asks for more.\<close>

definition record_sink :: "int64 \<Rightarrow> int64 \<Rightarrow> gostring \<Rightarrow> (int64 \<times> int64 \<times> gostring) list
    \<Rightarrow> bool \<times> (int64 \<times> int64 \<times> gostring) list" where
  "record_sink cid v label seen = (True, seen @ [(cid, v, label)])"


subsection \<open>Example sections\<close>



subsection \<open>Histories of a writer\<close>

text \<open>
  A history of one writer is a list of calls of \<^verbatim>\<open>AddCounter\<close>,
  \<^verbatim>\<open>AddCounterWithInitialValue\<close> and, on any counter handle, \<^verbatim>\<open>Counter.Close\<close>.
  \<open>run_writer\<close> runs them in order and lists, for each of the two adding calls, what it
  returned and the id it drew: the value \<^verbatim>\<open>atomic.AddInt64\<close> left in the id sequence.
\<close>

datatype writer_call =
    CallAddCounter gostring
  | CallAddCounterWithInitialValue gostring int64
  | CallCounterClose Counter

fun run_writer :: "Writer \<Rightarrow> writer_call list \<Rightarrow> ((err + Counter) \<times> int64) list" where
  "run_writer w [] = []"
| "run_writer w (CallAddCounter label # calls) =
     (let r = Writer_AddCounter w label
      in (fst r, w_idSequence (snd r)) # run_writer (snd r) calls)"
| "run_writer w (CallAddCounterWithInitialValue label initialValue # calls) =
     (let r = AddCounterWithInitialValue w label initialValue
      in (fst r, w_idSequence (snd r)) # run_writer (snd r) calls)"
| "run_writer w (CallCounterClose c # calls) = run_writer (snd (Counter_Close c w)) calls"

text \<open>A writer for one counter and no statics, as \<^verbatim>\<open>NewWriterForFile\<close> returns it.\<close>

definition fresh_writer :: Writer where
  "fresh_writer = the (NewWriterForFile [102] [] 1 (zeroBuffer 4096) 1 2)"

subsection \<open>Records of the statics section\<close>

text \<open>
  The offset behind the records of the given labels, when they are laid out from
  \<open>offset\<close> on: the sum that \<^verbatim>\<open>StaticsLength\<close> computes before it aligns.
\<close>

definition records_end :: "statics \<Rightarrow> gostring list \<Rightarrow> nat \<Rightarrow> nat" where
  "records_end statics labels offset =
     fold (\<lambda>label l. l + staticsRecordLength (length label) (length (lookup statics label)))
       labels offset"

text \<open>The bytes a store writes: from \<open>store_offset\<close>, \<open>store_length\<close> many.\<close>

fun store_offset :: "store \<Rightarrow> nat" where
  "store_offset (StorePutInt32 offset v) = offset"
| "store_offset (StorePutInt32Volatile offset v) = offset"
| "store_offset (StorePutBytes offset bs) = offset"

fun store_length :: "store \<Rightarrow> nat" where
  "store_length (StorePutInt32 offset v) = 4"
| "store_length (StorePutInt32Volatile offset v) = 4"
| "store_length (StorePutBytes offset bs) = length bs"

text \<open>
  \<open>holds_records m offset recs\<close>: the memory \<open>m\<close> holds, from \<open>offset\<close> on, the records
  \<open>recs\<close> in the layout of the statics section: label length, value length, label
  bytes, value bytes, and the next record at the aligned record length.
  \<open>records_of\<close> pairs each label with its value in the map.
\<close>

fun holds_records :: "(nat \<Rightarrow> byte) \<Rightarrow> nat \<Rightarrow> (gostring \<times> gostring) list \<Rightarrow> bool" where
  "holds_records m offset [] = True"
| "holds_records m offset ((label, val) # recs) =
     ((le_word (read_bytes m offset 4) :: int32) = word_of_nat (length label)
      \<and> (le_word (read_bytes m (offset + 4) 4) :: int32) = word_of_nat (length val)
      \<and> read_bytes m (offset + 8) (length label) = label
      \<and> read_bytes m (offset + 8 + length label) (length val) = val
      \<and> holds_records m (offset + staticsRecordLength (length label) (length val)) recs)"

definition records_of :: "statics \<Rightarrow> gostring list \<Rightarrow> (gostring \<times> gostring) list" where
  "records_of statics labels = map (\<lambda>label. (label, lookup statics label)) labels"

subsection \<open>Example statics\<close>

text \<open>
  A sink that records the statics it is given; a map of two statics, listed against the
  order of their labels, and an encoder sized for it; a map whose single label is
  \<open>2^31\<close> bytes long, and an encoder sized for it.
\<close>

definition record_static ::
  "gostring \<Rightarrow> gostring \<Rightarrow> (gostring \<times> gostring) list \<Rightarrow> bool \<times> (gostring \<times> gostring) list" where
  "record_static label val seen = (True, seen @ [(label, val)])"

definition two_statics :: statics where
  "two_statics = [([98], [2]), ([97], [1])]"

definition two_statics_encoder :: Layout where
  "two_statics_encoder = NewEncoder (zeroBuffer 4096) (StaticsLength two_statics) 512 128"

definition big_statics :: statics where
  "big_statics = [(replicate 2147483648 97, [])]"

definition big_statics_encoder :: Layout where
  "big_statics_encoder = NewEncoder (zeroBuffer 4294967296) (StaticsLength big_statics) 512 128"

subsection \<open>Stores of the statics section\<close>

text \<open>
  The stores of one record at an offset: label bytes, value bytes and label length by
  \<^verbatim>\<open>PutBytes\<close> and \<^verbatim>\<open>PutInt32\<close>, then the value length through \<^verbatim>\<open>PutInt32Volatile\<close>.
  \<open>records_stores\<close> are the stores of a list of records laid out one behind the other.
\<close>

definition record_stores :: "nat \<Rightarrow> gostring \<times> gostring \<Rightarrow> store list" where
  "record_stores offset r =
     [StorePutBytes (offset + staticsLabelOffset) (fst r),
      StorePutBytes (offset + staticsLabelOffset + length (fst r)) (snd r),
      StorePutInt32 (offset + staticsLabelLengthOffset) (word_of_nat (length (fst r))),
      StorePutInt32Volatile (offset + staticsValueLengthOffset) (word_of_nat (length (snd r)))]"

fun records_stores :: "nat \<Rightarrow> (gostring \<times> gostring) list \<Rightarrow> store list" where
  "records_stores offset [] = []"
| "records_stores offset (r # recs) =
     record_stores offset r
     @ records_stores (offset + staticsRecordLength (length (fst r)) (length (snd r))) recs"

text \<open>
  The order of stores the description of the initialization gives: the records first,
  the statics count, through \<^verbatim>\<open>PutInt32Volatile\<close>, after them.
\<close>

definition spec_count_after_records :: "store list \<Rightarrow> bool" where
  "spec_count_after_records sts \<longleftrightarrow>
     (\<exists>recs n. sts = records_stores staticsRecordsOffset recs
                      @ [StorePutInt32Volatile staticsNumberOfStaticsOffset n])"

section \<open>Buffers and words\<close>

declare AddCounter_loop.simps [simp del]
declare FreeCounter_loop.simps [simp del]
declare ForEachCounter_loop.simps [simp del]

lemma le_word_Cons: "le_word (b # bs) = (ucast b OR push_bit 8 (le_word bs) :: 'a::len word)"
  by (simp add: le_word_def)

lemma bit_byte_high: "8 \<le> n \<Longrightarrow> \<not> bit (b :: byte) n"
  using bit_imp_le_length [of b n] by auto

lemma bit_le_word_step:
  "bit (ucast (b::byte) OR push_bit 8 (x :: 'a::len word)) n \<longleftrightarrow>
     n < LENGTH('a) \<and> (if n < 8 then bit b n else bit x (n - 8))"
  by (cases "n < 8") (simp_all add: bit_or_iff bit_ucast_iff bit_push_bit_iff bit_byte_high)

lemma bit_le_word:
  "bit (le_word bs :: 'a::len word) n \<longleftrightarrow>
     n < LENGTH('a) \<and> n div 8 < length bs \<and> bit (bs ! (n div 8)) (n mod 8)"
proof (induction bs arbitrary: n)
  case Nil
  then show ?case by (simp add: le_word_def)
next
  case (Cons b bs)
  show ?case
  proof (cases "n < 8")
    case True
    then show ?thesis
      by (simp add: le_word_Cons bit_le_word_step)
  next
    case False
    then obtain m where n: "n = m + 8" by (metis le_add_diff_inverse2 not_less)
    have d: "(m + 8) div 8 = Suc (m div 8)" by simp
    have md: "(m + 8) mod 8 = m mod 8" by simp
    have lt: "m + 8 < LENGTH('a) \<Longrightarrow> m < LENGTH('a)" by simp
    show ?thesis
      unfolding n le_word_Cons bit_le_word_step d md
      using lt by (auto simp: Cons.IH)
  qed
qed

lemma le_word_le_bytes:
  assumes "LENGTH('a::len) \<le> 8 * k"
  shows "le_word (le_bytes k (w :: 'a word)) = w"
proof (rule bit_word_eqI)
  fix n assume n: "n < LENGTH('a)"
  then have "n < 8 * k" using assms by simp
  then have k: "n div 8 < k" by (simp add: less_mult_imp_div_less mult.commute)
  have e: "8 * (n div 8) + n mod 8 = n" by simp
  show "bit (le_word (le_bytes k w) :: 'a word) n = bit w n"
    using n k by (simp add: bit_le_word le_bytes_def bit_ucast_iff bit_drop_bit_eq e)
qed

lemma length_le_bytes [simp]: "length (le_bytes k w) = k"
  by (simp add: le_bytes_def)

lemma le_word_le_bytes32 [simp]: "le_word (le_bytes 4 (w :: int32)) = w"
  by (rule le_word_le_bytes) simp

lemma le_word_le_bytes64 [simp]: "le_word (le_bytes 8 (w :: int64)) = w"
  by (rule le_word_le_bytes) simp

lemma length_read_bytes [simp]: "length (read_bytes m off n) = n"
  by (simp add: read_bytes_def)

lemma read_bytes_cong:
  "(\<And>a. off \<le> a \<Longrightarrow> a < off + n \<Longrightarrow> m a = m' a) \<Longrightarrow> read_bytes m off n = read_bytes m' off n"
  by (simp add: read_bytes_def)

lemma read_write_same:
  "n \<le> length bs \<Longrightarrow> read_bytes (write_bytes m off bs) off n = take n bs"
  by (rule nth_equalityI) (simp_all add: read_bytes_def write_bytes_def)

lemma read_write_same' [simp]:
  "length bs = n \<Longrightarrow> read_bytes (write_bytes m off bs) off n = bs"
  by (simp add: read_write_same)

lemma read_write_disjoint [simp]:
  "off2 + n \<le> off1 \<or> off1 + length bs \<le> off2 \<Longrightarrow>
   read_bytes (write_bytes m off1 bs) off2 n = read_bytes m off2 n"
  by (rule read_bytes_cong) (auto simp: write_bytes_def)

lemma ff_mask: "(0xff :: int64) = mask 8"
  by (simp add: mask_eq_exp_minus_1)

lemma extractStatus_makeIDStatus [simp]: "extractStatus (makeIDStatus cid st) = st"
  unfolding extractStatus_def makeIDStatus_def ff_mask
  by (rule bit_word_eqI)
     (auto simp: bit_ucast_iff bit_and_iff bit_or_iff bit_push_bit_iff bit_mask_iff
        dest: bit_imp_le_length)

lemma extractID_makeIDStatus: "extractID (makeIDStatus cid st) = take_bit 56 cid"
  unfolding extractID_def makeIDStatus_def
  by (rule bit_word_eqI)
     (auto simp: bit_ucast_iff bit_or_iff bit_push_bit_iff bit_drop_bit_eq bit_take_bit_iff
        dest: bit_imp_le_length)

lemmas buffer_defs = GetInt32_def GetInt32Volatile_def GetInt64_def GetInt64Volatile_def
  PutInt32_def PutInt32Volatile_def PutInt64_def PutInt64Volatile_def PutSomeBytes_def
  PutBytes_def GetBytes_def GetString_def Capacity_def CompareAndSwapInt64_def

lemmas slot_defs = slotWord_def slotStatus_def slotID_def slotLabelLength_def slotLabel_def
  slotValue_def slotFree_def

subsection \<open>Alignment\<close>

lemma and_not_mask_int: "(x::int) AND NOT (mask n) = push_bit n (drop_bit n x)"
  by (rule bit_eqI) (auto simp: bit_and_iff bit_not_iff bit_mask_iff bit_push_bit_iff bit_drop_bit_eq)

lemma Align_pow2: "Align v (2 ^ n) = ((v + 2 ^ n - 1) div 2 ^ n) * 2 ^ n"
proof -
  have "(2::int) ^ n - 1 = mask n" by (simp add: mask_eq_exp_minus_1)
  then show ?thesis
    by (simp add: Align_def and_not_mask_int push_bit_eq_mult drop_bit_eq_div)
qed

lemma Align_4: "Align v 4 = ((v + 3) div 4) * 4"
  using Align_pow2 [of v 2] by simp

lemma Align_128: "Align v 128 = ((v + 127) div 128) * 128"
  using Align_pow2 [of v 7] by simp

lemma Align_128_ge: "v \<le> Align v 128"
  unfolding Align_128 by presburger

lemma staticsRecordLength_eq: "staticsRecordLength l v = ((8 + l + v + 3) div 4) * 4"
proof -
  have "Align (int (8 + l + v)) 4 = int (((8 + l + v + 3) div 4) * 4)"
    unfolding Align_4 by (simp add: zdiv_int)
  then show ?thesis
    by (simp add: staticsRecordLength_def)
qed

lemma staticsRecordLength_ge: "8 + l + v \<le> staticsRecordLength l v"
  unfolding staticsRecordLength_eq by presburger

section \<open>Allocating a counter slot\<close>

lemma AddCounter_loop_skip:
  assumes cap: "Capacity (CountersMetadata e) = int (n * metadataRecordLength)"
      and "i \<le> n" and "k \<le> i"
      and "\<forall>j. k \<le> j \<and> j < i \<longrightarrow> \<not> slotFree (CountersMetadata e) j"
  shows "AddCounter_loop e cid iv label (k * metadataRecordLength) (k * valuesCounterLength)
       = AddCounter_loop e cid iv label (i * metadataRecordLength) (i * valuesCounterLength)"
  using assms(3,4)
proof (induction "i - k" arbitrary: k)
  case 0
  then show ?case by simp
next
  case (Suc d)
  then have k: "k < i" and nf: "\<not> slotFree (CountersMetadata e) k" by auto
  have lt: "int (k * metadataRecordLength) < Capacity (CountersMetadata e)"
    using k \<open>i \<le> n\<close> cap by simp
  have step: "AddCounter_loop e cid iv label (k * metadataRecordLength) (k * valuesCounterLength)
      = AddCounter_loop e cid iv label (Suc k * metadataRecordLength) (Suc k * valuesCounterLength)"
    using lt nf
    by (subst AddCounter_loop.simps) (simp add: Let_def slot_defs add.commute)
  have "AddCounter_loop e cid iv label (Suc k * metadataRecordLength) (Suc k * valuesCounterLength)
      = AddCounter_loop e cid iv label (i * metadataRecordLength) (i * valuesCounterLength)"
    using Suc k by (intro Suc.hyps(1)) auto
  with step show ?case by simp
qed

lemma AddCounter_loop_take:
  assumes lt: "int (i * metadataRecordLength) < Capacity (CountersMetadata e)"
      and fr: "slotFree (CountersMetadata e) i"
  shows "AddCounter_loop e cid iv label (i * metadataRecordLength) (i * valuesCounterLength)
       = (Inr (i * valuesCounterLength),
          e\<lparr>CountersMetadata :=
               PutInt64Volatile
                 (PutSomeBytes
                    (PutInt32
                       (PutInt64 (CountersMetadata e) (i * metadataRecordLength)
                          (makeIDStatus cid counterStatusAllocationInProgress))
                       (i * metadataRecordLength + metadataLabelLengthOffset)
                       (word_of_nat (min (length label) metadataLabelMaxLength)))
                    (i * metadataRecordLength + metadataLabelOffset) label 0
                    (min (length label) metadataLabelMaxLength))
                 (i * metadataRecordLength) (makeIDStatus cid counterStatusAllocated),
             CountersValues := PutInt64 (CountersValues e) (i * valuesCounterLength) iv\<rparr>)"
proof -
  have cas: "CompareAndSwapInt64 b off (GetInt64Volatile b off) w = (True, PutInt64 b off w)"
    for w b off
    by (simp add: CompareAndSwapInt64_def GetInt64Volatile_def GetInt64_def)
  have m: "(if 380 < length label then 380 else length label) = min (length label) 380"
    by simp
  show ?thesis
    using lt fr
    by (subst AddCounter_loop.simps) (simp add: Let_def slot_defs cas m)
qed

lemma le_word_replicate_0 [simp]: "le_word (replicate n 0) = 0"
  by (induction n) (simp_all add: le_word_def)

lemma read_bytes_zero [simp]: "read_bytes (\<lambda>_. 0) off n = replicate n 0"
  by (simp add: read_bytes_def map_replicate_const)

text \<open>
  C1. When the metadata section has a slot whose status is NotUsed or Freed, AddCounter
  succeeds and takes the lowest such slot \<open>i\<close>: afterwards the id-status word of slot
  \<open>i\<close> is \<open>(id << 8) | Allocated\<close>, its label-length field is \<open>min |label| 380\<close>, its
  label field holds that many first bytes of the label, the paired values slot holds the
  initial value, and the returned value offset is \<open>i * 128\<close>.
\<close>

theorem AddCounter_lowest_free_slot:
  assumes cap: "Capacity (CountersMetadata e) = int (n * metadataRecordLength)"
      and i: "i < n"
      and fr: "slotFree (CountersMetadata e) i"
      and low: "\<forall>j<i. \<not> slotFree (CountersMetadata e) j"
  shows "fst (AddCounter e cid initialValue label) = Inr (i * valuesCounterLength)
       \<and> GetInt64Volatile (CountersMetadata (snd (AddCounter e cid initialValue label)))
            (i * metadataRecordLength + metadataCounterIDStatusOffset)
          = push_bit 8 cid OR ucast counterStatusAllocated
       \<and> GetInt32 (CountersMetadata (snd (AddCounter e cid initialValue label)))
            (i * metadataRecordLength + metadataLabelLengthOffset)
          = word_of_nat (min (length label) 380)
       \<and> GetBytes (CountersMetadata (snd (AddCounter e cid initialValue label)))
            (i * metadataRecordLength + metadataLabelOffset) (int (min (length label) 380))
          = Inr (take (min (length label) 380) label)
       \<and> GetInt64 (CountersValues (snd (AddCounter e cid initialValue label)))
            (i * valuesCounterLength)
          = initialValue"
proof -
  have lt: "int (i * metadataRecordLength) < Capacity (CountersMetadata e)"
    using cap i by simp
  have "AddCounter e cid initialValue label
      = AddCounter_loop e cid initialValue label (i * metadataRecordLength) (i * valuesCounterLength)"
    unfolding AddCounter_def
    using AddCounter_loop_skip [OF cap, of i 0 cid initialValue label] i low by simp
  then show ?thesis
    unfolding AddCounter_loop_take [OF lt fr]
    by (simp add: buffer_defs makeIDStatus_def read_write_same)
qed

lemma slotStatus_zeroBuffer [simp]: "slotStatus (zeroBuffer c) i = 0"
  by (simp add: slot_defs buffer_defs zeroBuffer_def NewBuffer_def extractStatus_def)

theorem AddCounter_lowest_free_slot_witness:
  "fst (AddCounter (emptyLayout 2) 7 5 [1, 2, 3]) = Inr 0
   \<and> GetInt64Volatile (CountersMetadata (snd (AddCounter (emptyLayout 2) 7 5 [1, 2, 3]))) 0
      = push_bit 8 7 OR 2
   \<and> GetInt32 (CountersMetadata (snd (AddCounter (emptyLayout 2) 7 5 [1, 2, 3]))) 128 = 3
   \<and> GetBytes (CountersMetadata (snd (AddCounter (emptyLayout 2) 7 5 [1, 2, 3]))) 132 3
      = Inr [1, 2, 3]
   \<and> GetInt64 (CountersValues (snd (AddCounter (emptyLayout 2) 7 5 [1, 2, 3]))) 0 = 5"
  using AddCounter_lowest_free_slot [of "emptyLayout 2" 2 0 7 5 "[1, 2, 3]"]
  by (simp add: emptyLayout_def slotFree_def MetadataLength_def zeroBuffer_def NewBuffer_def Capacity_def
      slotStatus_zeroBuffer [unfolded zeroBuffer_def NewBuffer_def])

section \<open>Reader construction and the version field\<close>

lemma Version_NewDecoder:
  "Version (NewDecoder buf) = GetInt32Volatile buf headerCountersVersionOffset"
  by (simp add: Version_def NewDecoder_def Let_def Slice_def NewBuffer_def
      GetInt32Volatile_def read_bytes_def)

text \<open>
  C7. Constructing a reader over a mapped file fails with Uninitialized exactly when the
  version field of the header is 0, fails with VersionMismatch exactly when the version
  is neither 0 nor CountersVersion = 1, and succeeds exactly when the version is 1.
\<close>

theorem NewReader_version:
  "(NewReader buf = Inl Uninitialized)
      = (GetInt32Volatile buf headerCountersVersionOffset = 0)
   \<and> ((\<exists>v. NewReader buf = Inl (VersionMismatch v))
      = (GetInt32Volatile buf headerCountersVersionOffset \<noteq> 0
         \<and> GetInt32Volatile buf headerCountersVersionOffset \<noteq> CountersVersion))
   \<and> ((\<exists>r. NewReader buf = Inr r)
      = (GetInt32Volatile buf headerCountersVersionOffset = CountersVersion))"
  by (simp add: NewReader_def Let_def Version_NewDecoder)

section \<open>The slot state machine\<close>

lemma Capacity_allocate_slot [simp]:
  "Capacity (allocate_slot md i cid label) = Capacity md"
  by (simp add: allocate_slot_def buffer_defs)

lemma slot_lt: "j < i \<Longrightarrow> j * 512 + 512 \<le> i * (512::nat)"
proof -
  assume "j < i"
  then have "Suc j * 512 \<le> i * 512" by (intro mult_le_mono1) simp
  then show ?thesis by simp
qed

lemma slotWord_allocate_slot:
  "slotWord (allocate_slot md i cid label) j =
     (if j = i then makeIDStatus cid counterStatusAllocated else slotWord md j)"
proof (cases "j = i")
  case True
  then show ?thesis by (simp add: allocate_slot_def slotWord_def buffer_defs)
next
  case False
  then consider "j < i" | "i < j" by linarith
  then show ?thesis
  proof cases
    case 1
    from slot_lt [OF 1] False show ?thesis
      by (simp add: allocate_slot_def slotWord_def buffer_defs)
  next
    case 2
    from slot_lt [OF 2] False show ?thesis
      by (simp add: allocate_slot_def slotWord_def buffer_defs)
  qed
qed

lemma AddCounter_cases:
  assumes cap: "Capacity (CountersMetadata e) = int (n * metadataRecordLength)"
  shows "((\<forall>i<n. \<not> slotFree (CountersMetadata e) i)
            \<and> AddCounter e cid iv label = (Inl NoFreeSpace, e))
       \<or> (\<exists>i<n. slotFree (CountersMetadata e) i \<and> (\<forall>j<i. \<not> slotFree (CountersMetadata e) j)
            \<and> AddCounter e cid iv label
              = (Inr (i * valuesCounterLength),
                 e\<lparr>CountersMetadata := allocate_slot (CountersMetadata e) i cid label,
                   CountersValues := PutInt64 (CountersValues e) (i * valuesCounterLength) iv\<rparr>))"
proof (cases "\<exists>i<n. slotFree (CountersMetadata e) i")
  case True
  define i where "i = (LEAST i. i < n \<and> slotFree (CountersMetadata e) i)"
  from True have P: "i < n \<and> slotFree (CountersMetadata e) i"
    unfolding i_def by (metis (mono_tags, lifting) LeastI)
  have low: "\<forall>j<i. \<not> slotFree (CountersMetadata e) j"
  proof (intro allI impI)
    fix j assume "j < i"
    then have "\<not> (j < n \<and> slotFree (CountersMetadata e) j)"
      unfolding i_def by (rule not_less_Least)
    with \<open>j < i\<close> P show "\<not> slotFree (CountersMetadata e) j" by simp
  qed
  have lt: "int (i * metadataRecordLength) < Capacity (CountersMetadata e)"
    using cap P by simp
  have "AddCounter e cid iv label
      = AddCounter_loop e cid iv label (i * metadataRecordLength) (i * valuesCounterLength)"
    unfolding AddCounter_def
    using AddCounter_loop_skip [OF cap, of i 0 cid iv label] P low by simp
  then have "AddCounter e cid iv label
      = (Inr (i * valuesCounterLength),
         e\<lparr>CountersMetadata := allocate_slot (CountersMetadata e) i cid label,
           CountersValues := PutInt64 (CountersValues e) (i * valuesCounterLength) iv\<rparr>)"
    using AddCounter_loop_take [OF lt conjunct2 [OF P], of cid iv label]
    unfolding allocate_slot_def by simp
  with P low show ?thesis by blast
next
  case False
  then have nf: "\<forall>j. 0 \<le> j \<and> j < n \<longrightarrow> \<not> slotFree (CountersMetadata e) j" by simp
  have "AddCounter e cid iv label
      = AddCounter_loop e cid iv label (n * metadataRecordLength) (n * valuesCounterLength)"
    unfolding AddCounter_def
    using AddCounter_loop_skip [OF cap, of n 0 cid iv label] nf by simp
  also have "\<dots> = (Inl NoFreeSpace, e)"
    using cap by (subst AddCounter_loop.simps) simp
  finally show ?thesis using False by simp
qed

lemma slotWord_PutInt64:
  "slotWord (PutInt64 md (i * 512) w) j = (if j = i then w else slotWord md j)"
proof (cases "j = i")
  case True
  then show ?thesis by (simp add: slotWord_def buffer_defs)
next
  case False
  then consider "j < i" | "i < j" by linarith
  then show ?thesis
  proof cases
    case 1
    from slot_lt [OF 1] False show ?thesis by (simp add: slotWord_def buffer_defs)
  next
    case 2
    from slot_lt [OF 2] False show ?thesis by (simp add: slotWord_def buffer_defs)
  qed
qed

lemma FreeCounter_loop_cases:
  assumes cap: "Capacity (CountersMetadata e) = int (n * metadataRecordLength)"
      and "k \<le> n"
  shows "FreeCounter_loop e cid (k * metadataRecordLength) = (False, e)
       \<or> (\<exists>i<n. slotStatus (CountersMetadata e) i = counterStatusAllocated
             \<and> slotID (CountersMetadata e) i = cid
             \<and> FreeCounter_loop e cid (k * metadataRecordLength)
               = (True, e\<lparr>CountersMetadata :=
                    PutInt64 (CountersMetadata e) (i * metadataRecordLength)
                      (makeIDStatus cid counterStatusFreed)\<rparr>))"
  using assms(2)
proof (induction "n - k" arbitrary: k)
  case 0
  then have "k = n" by simp
  then show ?case using cap by (subst FreeCounter_loop.simps) simp
next
  case (Suc d)
  then have k: "k < n" by simp
  have lt: "int (k * metadataRecordLength) < Capacity (CountersMetadata e)"
    using k cap by simp
  have cas: "CompareAndSwapInt64 b off (GetInt64Volatile b off) w = (True, PutInt64 b off w)"
    for w b off
    by (simp add: CompareAndSwapInt64_def GetInt64Volatile_def GetInt64_def)
  show ?case
  proof (cases "slotID (CountersMetadata e) k = cid")
    case True
    show ?thesis
    proof (cases "slotStatus (CountersMetadata e) k = counterStatusAllocated")
      case A: True
      have "FreeCounter_loop e cid (k * metadataRecordLength)
             = (True, e\<lparr>CountersMetadata :=
                    PutInt64 (CountersMetadata e) (k * metadataRecordLength)
                      (makeIDStatus cid counterStatusFreed)\<rparr>)"
        using lt True A
        by (subst FreeCounter_loop.simps) (simp add: Let_def slot_defs cas)
      with k True A show ?thesis by blast
    next
      case False
      have "FreeCounter_loop e cid (k * metadataRecordLength) = (False, e)"
        using lt True False
        by (subst FreeCounter_loop.simps) (simp add: Let_def slot_defs)
      then show ?thesis by simp
    qed
  next
    case False
    have step: "FreeCounter_loop e cid (k * metadataRecordLength)
              = FreeCounter_loop e cid (Suc k * metadataRecordLength)"
      using lt False
      by (subst FreeCounter_loop.simps) (simp add: Let_def slot_defs add.commute)
    have "Suc k \<le> n" "d = n - Suc k" using k Suc.hyps(2) by simp_all
    from Suc.hyps(1) [OF this(2) this(1)] show ?thesis unfolding step .
  qed
qed

lemma FreeCounter_cases:
  assumes cap: "Capacity (CountersMetadata e) = int (n * metadataRecordLength)"
  shows "FreeCounter e cid = (False, e)
       \<or> (\<exists>i<n. slotStatus (CountersMetadata e) i = counterStatusAllocated
             \<and> slotID (CountersMetadata e) i = cid
             \<and> FreeCounter e cid
               = (True, e\<lparr>CountersMetadata :=
                    PutInt64 (CountersMetadata e) (i * metadataRecordLength)
                      (makeIDStatus cid counterStatusFreed)\<rparr>))"
  using FreeCounter_loop_cases [OF cap le0, of cid] by (simp add: FreeCounter_def)

lemma slots_inv_empty: "slots_inv n (CountersMetadata (emptyLayout n))"
  by (simp add: slots_inv_def emptyLayout_def MetadataLength_def)
     (simp add: zeroBuffer_def NewBuffer_def Capacity_def)

lemma slots_inv_AddCounter:
  assumes inv: "slots_inv n (CountersMetadata e)"
  shows "slots_inv n (CountersMetadata (snd (AddCounter e cid iv label)))"
proof -
  let ?md = "CountersMetadata e"
  from inv have cap: "Capacity ?md = int (n * metadataRecordLength)"
    by (simp add: slots_inv_def)
  from AddCounter_cases [OF cap, of cid iv label] show ?thesis
  proof (elim disjE conjE exE)
    assume "AddCounter e cid iv label = (Inl NoFreeSpace, e)"
    with inv show ?thesis by simp
  next
    fix i
    assume i: "i < n" and fr: "slotFree ?md i" and low: "\<forall>j<i. \<not> slotFree ?md j"
       and eq: "AddCounter e cid iv label
              = (Inr (i * valuesCounterLength),
                 e\<lparr>CountersMetadata := allocate_slot ?md i cid label,
                   CountersValues := PutInt64 (CountersValues e) (i * valuesCounterLength) iv\<rparr>)"
    have st: "slotStatus (allocate_slot ?md i cid label) j
              = (if j = i then counterStatusAllocated else slotStatus ?md j)" for j
      by (simp add: slotStatus_def slotWord_allocate_slot)
    have lowne: "slotStatus ?md j \<noteq> counterStatusNotUsed" if "j < i" for j
      using low that by (auto simp: slotFree_def)
    have "slots_inv n (allocate_slot ?md i cid label)"
      unfolding slots_inv_def st
    proof (intro conjI allI impI)
      show "Capacity (allocate_slot ?md i cid label) = int (n * metadataRecordLength)"
        using cap by simp
    next
      fix j assume "j < n"
      then show "(if j = i then counterStatusAllocated else slotStatus ?md j) = counterStatusNotUsed
        \<or> (if j = i then counterStatusAllocated else slotStatus ?md j) = counterStatusAllocated
        \<or> (if j = i then counterStatusAllocated else slotStatus ?md j) = counterStatusFreed"
        using inv by (auto simp: slots_inv_def)
    next
      fix a b
      assume h: "a \<le> b \<and> b < n
        \<and> (if a = i then counterStatusAllocated else slotStatus ?md a) = counterStatusNotUsed"
      then have ai: "a \<noteq> i" and a0: "slotStatus ?md a = counterStatusNotUsed"
        by (auto split: if_splits)
      with lowne have "i < a" by (metis linorder_neqE_nat)
      then have "b \<noteq> i" using h by simp
      moreover have "slotStatus ?md b = counterStatusNotUsed"
        using inv h a0 by (auto simp: slots_inv_def)
      ultimately show "(if b = i then counterStatusAllocated else slotStatus ?md b)
                       = counterStatusNotUsed" by simp
    qed
    then show ?thesis by (simp add: eq)
  qed
qed

lemma slots_inv_FreeCounter:
  assumes inv: "slots_inv n (CountersMetadata e)"
  shows "slots_inv n (CountersMetadata (snd (FreeCounter e cid)))"
proof -
  let ?md = "CountersMetadata e"
  from inv have cap: "Capacity ?md = int (n * metadataRecordLength)"
    by (simp add: slots_inv_def)
  from FreeCounter_cases [OF cap, of cid] show ?thesis
  proof (elim disjE conjE exE)
    assume "FreeCounter e cid = (False, e)"
    with inv show ?thesis by simp
  next
    fix i
    assume i: "i < n" and al: "slotStatus ?md i = counterStatusAllocated"
       and eq: "FreeCounter e cid
              = (True, e\<lparr>CountersMetadata :=
                    PutInt64 ?md (i * metadataRecordLength)
                      (makeIDStatus cid counterStatusFreed)\<rparr>)"
    let ?md' = "PutInt64 ?md (i * metadataRecordLength) (makeIDStatus cid counterStatusFreed)"
    have st: "slotStatus ?md' j = (if j = i then counterStatusFreed else slotStatus ?md j)" for j
      by (simp add: slotStatus_def slotWord_PutInt64)
    have "slots_inv n ?md'"
      unfolding slots_inv_def st
    proof (intro conjI allI impI)
      show "Capacity ?md' = int (n * metadataRecordLength)"
        using cap by (simp add: buffer_defs)
    next
      fix j assume "j < n"
      then show "(if j = i then counterStatusFreed else slotStatus ?md j) = counterStatusNotUsed
        \<or> (if j = i then counterStatusFreed else slotStatus ?md j) = counterStatusAllocated
        \<or> (if j = i then counterStatusFreed else slotStatus ?md j) = counterStatusFreed"
        using inv by (auto simp: slots_inv_def)
    next
      fix a b
      assume h: "a \<le> b \<and> b < n
        \<and> (if a = i then counterStatusFreed else slotStatus ?md a) = counterStatusNotUsed"
      then have ai: "a \<noteq> i" and a0: "slotStatus ?md a = counterStatusNotUsed"
        by (auto split: if_splits)
      have b0: "slotStatus ?md b = counterStatusNotUsed"
        using inv h a0 by (auto simp: slots_inv_def)
      with al have "b \<noteq> i" by auto
      with b0 show "(if b = i then counterStatusFreed else slotStatus ?md b)
                       = counterStatusNotUsed" by simp
    qed
    then show ?thesis by (simp add: eq)
  qed
qed

lemma used_AddCounter:
  assumes cap: "Capacity (CountersMetadata e) = int (n * metadataRecordLength)"
      and nz: "slotStatus (CountersMetadata e) j \<noteq> counterStatusNotUsed"
  shows "slotStatus (CountersMetadata (snd (AddCounter e cid iv label))) j \<noteq> counterStatusNotUsed"
  using AddCounter_cases [OF cap, of cid iv label] nz
  by (auto simp: slotStatus_def slotWord_allocate_slot split: if_splits)

lemma used_FreeCounter:
  assumes cap: "Capacity (CountersMetadata e) = int (n * metadataRecordLength)"
      and nz: "slotStatus (CountersMetadata e) j \<noteq> counterStatusNotUsed"
  shows "slotStatus (CountersMetadata (snd (FreeCounter e cid))) j \<noteq> counterStatusNotUsed"
  using FreeCounter_cases [OF cap, of cid] nz
  by (auto simp: slotStatus_def slotWord_PutInt64 split: if_splits)

lemma slots_inv_apply_op:
  "slots_inv n (CountersMetadata e) \<Longrightarrow> slots_inv n (CountersMetadata (apply_op e x))"
  by (cases x) (simp_all add: slots_inv_AddCounter slots_inv_FreeCounter)

lemma used_apply_op:
  "slots_inv n (CountersMetadata e) \<Longrightarrow>
   slotStatus (CountersMetadata e) j \<noteq> counterStatusNotUsed \<Longrightarrow>
   slotStatus (CountersMetadata (apply_op e x)) j \<noteq> counterStatusNotUsed"
  by (cases x) (simp_all add: slots_inv_def used_AddCounter used_FreeCounter)

lemma slots_inv_run_ops:
  "slots_inv n (CountersMetadata e) \<Longrightarrow> slots_inv n (CountersMetadata (run_ops e ops))"
  unfolding run_ops_def
  by (induction ops arbitrary: e) (simp_all add: slots_inv_apply_op)

lemma used_run_ops:
  "slots_inv n (CountersMetadata e) \<Longrightarrow>
   slotStatus (CountersMetadata e) j \<noteq> counterStatusNotUsed \<Longrightarrow>
   slotStatus (CountersMetadata (run_ops e ops)) j \<noteq> counterStatusNotUsed"
  unfolding run_ops_def
  by (induction ops arbitrary: e) (simp_all add: slots_inv_apply_op used_apply_op)

lemma run_ops_append: "run_ops e (ops @ ops') = run_ops (run_ops e ops) ops'"
  by (simp add: run_ops_def)

text \<open>
  C4. In every state reached from the all-NotUsed section by a sequence of AddCounter and
  FreeCounter calls, every slot's status is one of NotUsed, AllocationInProgress,
  Allocated and Freed; a slot that has left NotUsed is not NotUsed after any further
  calls; and the NotUsed slots form a suffix: no slot above a NotUsed slot has another
  status.
\<close>

theorem slot_status_invariant:
  "(\<forall>i<n. slotStatus (CountersMetadata (run_ops (emptyLayout n) ops)) i
            \<in> {counterStatusNotUsed, counterStatusAllocationInProgress,
                counterStatusAllocated, counterStatusFreed})
   \<and> (\<forall>i<n. slotStatus (CountersMetadata (run_ops (emptyLayout n) ops)) i \<noteq> counterStatusNotUsed
          \<longrightarrow> slotStatus (CountersMetadata (run_ops (emptyLayout n) (ops @ ops'))) i
              \<noteq> counterStatusNotUsed)
   \<and> (\<forall>i j. i < j \<and> j < n
          \<and> slotStatus (CountersMetadata (run_ops (emptyLayout n) ops)) i = counterStatusNotUsed
          \<longrightarrow> slotStatus (CountersMetadata (run_ops (emptyLayout n) ops)) j = counterStatusNotUsed)"
proof -
  let ?md = "CountersMetadata (run_ops (emptyLayout n) ops)"
  have inv: "slots_inv n ?md"
    by (rule slots_inv_run_ops) (rule slots_inv_empty)
  have a: "\<forall>i<n. slotStatus ?md i
            \<in> {counterStatusNotUsed, counterStatusAllocationInProgress,
                counterStatusAllocated, counterStatusFreed}"
    using inv by (auto simp: slots_inv_def)
  have b: "\<forall>i<n. slotStatus ?md i \<noteq> counterStatusNotUsed
          \<longrightarrow> slotStatus (CountersMetadata (run_ops (emptyLayout n) (ops @ ops'))) i
              \<noteq> counterStatusNotUsed"
    unfolding run_ops_append using used_run_ops [OF inv] by blast
  have c: "\<forall>i j. i < j \<and> j < n \<and> slotStatus ?md i = counterStatusNotUsed
          \<longrightarrow> slotStatus ?md j = counterStatusNotUsed"
  proof (intro allI impI)
    fix i j
    assume h: "i < j \<and> j < n \<and> slotStatus ?md i = counterStatusNotUsed"
    then have "i \<le> j \<and> j < n \<and> slotStatus ?md i = counterStatusNotUsed" by simp
    with inv show "slotStatus ?md j = counterStatusNotUsed"
      unfolding slots_inv_def by blast
  qed
  from a b c show ?thesis by blast
qed

lemma AddCounter_emptyLayout:
  "0 < n \<Longrightarrow> AddCounter (emptyLayout n) cid iv label
     = (Inr 0, (emptyLayout n)\<lparr>CountersMetadata :=
                   allocate_slot (CountersMetadata (emptyLayout n)) 0 cid label,
                 CountersValues := PutInt64 (CountersValues (emptyLayout n)) 0 iv\<rparr>)"
proof -
  assume n: "0 < n"
  have lt: "int (0 * metadataRecordLength) < Capacity (CountersMetadata (emptyLayout n))"
    using n by (simp add: emptyLayout_def MetadataLength_def zeroBuffer_def NewBuffer_def Capacity_def)
  have fr: "slotFree (CountersMetadata (emptyLayout n)) 0"
    by (simp add: emptyLayout_def slotFree_def)
  show ?thesis
    using AddCounter_loop_take [OF lt fr, of cid iv label]
    by (simp add: AddCounter_def allocate_slot_def)
qed

theorem slot_status_invariant_witness:
  "slotStatus (CountersMetadata (run_ops (emptyLayout 2) [OpAddCounter 7 5 [1]])) 0
     = counterStatusAllocated
   \<and> slotStatus (CountersMetadata (run_ops (emptyLayout 2) [OpAddCounter 7 5 [1]])) 1
     = counterStatusNotUsed
   \<and> slotStatus (CountersMetadata
        (run_ops (emptyLayout 2) ([OpAddCounter 7 5 [1]] @ [OpFreeCounter 7, OpAddCounter 8 0 []]))) 0
     \<noteq> counterStatusNotUsed"
proof -
  let ?md = "CountersMetadata (run_ops (emptyLayout 2) [OpAddCounter 7 5 [1]])"
  have md: "?md = allocate_slot (CountersMetadata (emptyLayout 2)) 0 7 [1]"
    by (simp add: run_ops_def AddCounter_emptyLayout)
  have s0: "slotStatus ?md 0 = counterStatusAllocated"
    unfolding md by (simp add: slotStatus_def slotWord_allocate_slot)
  have s1: "slotStatus ?md 1 = counterStatusNotUsed"
    unfolding md by (simp add: slotStatus_def slotWord_allocate_slot)
       (simp add: emptyLayout_def slotStatus_def [symmetric])
  from s0 have nz: "slotStatus ?md 0 \<noteq> counterStatusNotUsed" by simp
  from slot_status_invariant [of 2 "[OpAddCounter 7 5 [1]]" "[OpFreeCounter 7, OpAddCounter 8 0 []]"]
  have "\<forall>i<2. slotStatus ?md i \<noteq> counterStatusNotUsed
          \<longrightarrow> slotStatus (CountersMetadata (run_ops (emptyLayout 2)
                  ([OpAddCounter 7 5 [1]] @ [OpFreeCounter 7, OpAddCounter 8 0 []]))) i
              \<noteq> counterStatusNotUsed" by blast
  with nz have "slotStatus (CountersMetadata (run_ops (emptyLayout 2)
                  ([OpAddCounter 7 5 [1]] @ [OpFreeCounter 7, OpAddCounter 8 0 []]))) 0
              \<noteq> counterStatusNotUsed" by simp
  with s0 s1 show ?thesis by blast
qed

section \<open>Iterating over the counters\<close>

lemma ForEachCounter_loop_spec:
  assumes cap: "Capacity (CountersMetadata d) = int (n * metadataRecordLength)"
      and "k \<le> n"
      and "\<forall>i \<in> set (filter (\<lambda>i. slotStatus (CountersMetadata d) i = counterStatusAllocated)
              (takeWhile (\<lambda>i. slotStatus (CountersMetadata d) i \<noteq> counterStatusNotUsed) [k..<n])).
             0 \<le> slotLabelLength (CountersMetadata d) i"
  shows "ForEachCounter_loop d sink (k * metadataRecordLength) (k * valuesCounterLength) s
       = Inr (feed (\<lambda>i. sink (slotID (CountersMetadata d) i) (slotValue (CountersValues d) i)
                         (storedLabel (CountersMetadata d) i))
                (filter (\<lambda>i. slotStatus (CountersMetadata d) i = counterStatusAllocated)
                   (takeWhile (\<lambda>i. slotStatus (CountersMetadata d) i \<noteq> counterStatusNotUsed) [k..<n]))
                s)"
  using assms(2,3)
proof (induction "n - k" arbitrary: k s)
  case 0
  then have "k = n" by simp
  then show ?case using cap by (subst ForEachCounter_loop.simps) simp
next
  case (Suc m)
  let ?md = "CountersMetadata d"
  from Suc have k: "k < n" by simp
  then have upt: "[k..<n] = k # [Suc k..<n]" by (simp add: upt_conv_Cons)
  have lt: "int (k * metadataRecordLength) < Capacity ?md"
    using k cap by simp
  have IH: "ForEachCounter_loop d sink (Suc k * metadataRecordLength) (Suc k * valuesCounterLength) s'
       = Inr (feed (\<lambda>i. sink (slotID ?md i) (slotValue (CountersValues d) i) (storedLabel ?md i))
                (filter (\<lambda>i. slotStatus ?md i = counterStatusAllocated)
                   (takeWhile (\<lambda>i. slotStatus ?md i \<noteq> counterStatusNotUsed) [Suc k..<n]))
                s')"
    if "slotStatus ?md k \<noteq> counterStatusNotUsed" for s'
  proof (rule Suc.hyps(1))
    show "m = n - Suc k" using Suc.hyps(2) by simp
    show "Suc k \<le> n" using k by simp
    show "\<forall>i \<in> set (filter (\<lambda>i. slotStatus ?md i = counterStatusAllocated)
              (takeWhile (\<lambda>i. slotStatus ?md i \<noteq> counterStatusNotUsed) [Suc k..<n])).
             0 \<le> slotLabelLength ?md i"
      using Suc.prems(2) that unfolding upt by simp
  qed
  consider (nu) "slotStatus ?md k = counterStatusNotUsed"
    | (al) "slotStatus ?md k = counterStatusAllocated"
    | (other) "slotStatus ?md k \<noteq> counterStatusNotUsed" "slotStatus ?md k \<noteq> counterStatusAllocated"
    by blast
  then show ?case
  proof cases
    case nu
    then show ?thesis
      using lt unfolding upt
      by (subst ForEachCounter_loop.simps) (simp add: Let_def slot_defs)
  next
    case al
    then have len: "0 \<le> slotLabelLength ?md k"
      using Suc.prems(2) unfolding upt by simp
    have ne: "slotStatus ?md k \<noteq> counterStatusNotUsed" using al by simp
    show ?thesis
      using lt al len IH [OF ne] unfolding upt
      by (subst ForEachCounter_loop.simps)
         (simp add: Let_def slot_defs storedLabel_def GetString_def GetBytes_def add.commute)
  next
    case other
    show ?thesis
      using lt other IH [OF other(1)] unfolding upt
      by (subst ForEachCounter_loop.simps) (simp add: Let_def slot_defs add.commute)
  qed
qed

text \<open>
  C2. With no writer at work on a metadata section of \<open>n\<close> slots, ForEachCounter invokes
  the sink once for each Allocated slot strictly before the first NotUsed slot, in
  ascending slot order, with the slot's id, the value of its paired values slot and its
  stored label; AllocationInProgress and Freed slots are skipped, the iteration stops at
  the first NotUsed slot, and it halts as soon as the sink returns false. The stored
  label of a visited slot is read with the length its label-length field holds, which
  is not negative.
\<close>

theorem ForEachCounter_visits_allocated_live_slots:
  assumes cap: "Capacity (CountersMetadata d) = int (n * metadataRecordLength)"
      and len: "\<forall>i \<in> set (allocated_live_slots n (CountersMetadata d)).
                  0 \<le> slotLabelLength (CountersMetadata d) i"
  shows "ForEachCounter d sink s = Inr (spec_ForEachCounter n d sink s)"
  using ForEachCounter_loop_spec [OF cap le0, of sink s] len
  by (simp add: ForEachCounter_def spec_ForEachCounter_def allocated_live_slots_def live_slots_def)

lemma sint_word_of_nat32: "n < 2 ^ 31 \<Longrightarrow> sint (word_of_nat n :: int32) = int n"
  by (simp add: signed_of_nat signed_take_bit_int_eq_self)

lemma slotLabelLength_allocate_slot:
  "slotLabelLength (allocate_slot md i cid label) i = int (min (length label) 380)"
proof -
  have "min (length label) 380 < 2 ^ 31" by simp
  then show ?thesis
    by (simp add: slotLabelLength_def allocate_slot_def buffer_defs sint_word_of_nat32
        del: of_nat_min)
qed

lemma storedLabel_allocate_slot:
  "storedLabel (allocate_slot md i cid label) i = take 380 label"
proof -
  have "read_bytes (mem (allocate_slot md i cid label)) (i * 512 + 132) (min (length label) 380)
        = take (min (length label) 380) label"
    by (simp add: allocate_slot_def buffer_defs read_write_same)
  then show ?thesis
    unfolding storedLabel_def slotLabelLength_allocate_slot
    by (simp add: min_def)
qed

lemma slotValue_PutInt64: "slotValue (PutInt64 vals (i * 128) v) i = v"
  by (simp add: slotValue_def buffer_defs)

lemma Capacity_zeroBuffer [simp]: "Capacity (zeroBuffer c) = c"
  by (simp add: zeroBuffer_def NewBuffer_def Capacity_def)

lemma slotID_7: "extractID (makeIDStatus 7 st) = 7"
  by (simp add: extractID_makeIDStatus take_bit_eq_mod)

theorem ForEachCounter_visits_allocated_live_slots_witness:
  "ForEachCounter (snd (AddCounter (emptyLayout 2) 7 5 [1])) record_sink [] = Inr [(7, 5, [1])]"
proof -
  let ?d = "snd (AddCounter (emptyLayout 2) 7 5 [1])"
  have md: "CountersMetadata ?d = allocate_slot (CountersMetadata (emptyLayout 2)) 0 7 [1]"
    and vals: "CountersValues ?d = PutInt64 (CountersValues (emptyLayout 2)) (0 * 128) 5"
    by (simp_all add: AddCounter_emptyLayout)
  have cap: "Capacity (CountersMetadata ?d) = int (2 * metadataRecordLength)"
    unfolding md by (simp add: emptyLayout_def MetadataLength_def)
  have s0: "slotStatus (CountersMetadata ?d) 0 = counterStatusAllocated"
    unfolding md by (simp add: slotStatus_def slotWord_allocate_slot)
  have s1: "slotStatus (CountersMetadata ?d) 1 = counterStatusNotUsed"
    unfolding md by (simp add: slotStatus_def slotWord_allocate_slot)
       (simp add: emptyLayout_def slotStatus_def [symmetric])
  have upt2: "[0..<2] = [0, Suc 0]" by (simp add: upt_rec)
  have slots: "allocated_live_slots 2 (CountersMetadata ?d) = [0]"
    using s0 s1 by (simp add: allocated_live_slots_def live_slots_def upt2)
  have len: "\<forall>i \<in> set (allocated_live_slots 2 (CountersMetadata ?d)).
               0 \<le> slotLabelLength (CountersMetadata ?d) i"
  proof -
    have "0 \<le> slotLabelLength (CountersMetadata ?d) 0"
      unfolding md by (simp add: slotLabelLength_allocate_slot)
    then show ?thesis unfolding slots by simp
  qed
  have "spec_ForEachCounter 2 ?d record_sink [] = [(7, 5, [1])]"
    unfolding spec_ForEachCounter_def slots
    by (simp only: md vals) (simp add: record_sink_def slotID_def slotWord_allocate_slot slotID_7
        slotValue_PutInt64 [of _ 0, simplified] storedLabel_allocate_slot)
  with ForEachCounter_visits_allocated_live_slots [OF cap len, of record_sink "[]"]
  show ?thesis by simp
qed

section \<open>Looking a counter up by its id\<close>





lemma AddCounter_at:
  assumes cap: "Capacity (CountersMetadata e) = int (n * metadataRecordLength)"
      and i: "i < n"
      and fr: "slotFree (CountersMetadata e) i"
      and low: "\<forall>j<i. \<not> slotFree (CountersMetadata e) j"
  shows "AddCounter e cid iv label
       = (Inr (i * valuesCounterLength),
          e\<lparr>CountersMetadata := allocate_slot (CountersMetadata e) i cid label,
            CountersValues := PutInt64 (CountersValues e) (i * valuesCounterLength) iv\<rparr>)"
proof -
  have lt: "int (i * metadataRecordLength) < Capacity (CountersMetadata e)"
    using cap i by simp
  have "AddCounter e cid iv label
      = AddCounter_loop e cid iv label (i * metadataRecordLength) (i * valuesCounterLength)"
    unfolding AddCounter_def
    using AddCounter_loop_skip [OF cap, of i 0 cid iv label] i low by simp
  then show ?thesis
    using AddCounter_loop_take [OF lt fr, of cid iv label]
    unfolding allocate_slot_def by simp
qed


lemma Capacity_emptyLayout [simp]:
  "Capacity (CountersMetadata (emptyLayout n)) = int (n * 512)"
  by (simp add: emptyLayout_def MetadataLength_def)

lemma slotStatus_emptyLayout [simp]: "slotStatus (CountersMetadata (emptyLayout n)) i = 0"
  by (simp add: emptyLayout_def)


lemma upt2: "[0..<2] = [0, Suc 0]"
  by (simp add: upt_rec)










section \<open>The writer and the reader: ids and closing\<close>

lemma AddCounterWithInitialValue_id:
  "w_idSequence (snd (AddCounterWithInitialValue w label iv)) = w_idSequence w + 1"
  "fst (AddCounterWithInitialValue w label iv) = Inr c \<Longrightarrow> c_id c = w_idSequence w + 1"
  by (auto simp: AddCounterWithInitialValue_def Let_def split: sum.splits)

lemma Counter_Close_id: "w_idSequence (snd (Counter_Close c w)) = w_idSequence w"
  by (simp add: Counter_Close_def)

lemma run_writer_ids:
  "k < length (run_writer w calls) \<Longrightarrow>
     snd (run_writer w calls ! k) = w_idSequence w + 1 + word_of_nat k
     \<and> (\<forall>c. fst (run_writer w calls ! k) = Inr c \<longrightarrow> c_id c = w_idSequence w + 1 + word_of_nat k)"
proof (induction w calls arbitrary: k rule: run_writer.induct)
  case (1 w)
  then show ?case by simp
next
  case (2 w label calls)
  show ?case
  proof (cases k)
    case 0
    then show ?thesis
      by (simp add: Let_def Writer_AddCounter_def AddCounterWithInitialValue_id)
  next
    case (Suc j)
    with 2 show ?thesis
      by (simp add: Let_def Writer_AddCounter_def AddCounterWithInitialValue_id add.assoc)
  qed
next
  case (3 w label iv calls)
  show ?case
  proof (cases k)
    case 0
    then show ?thesis
      by (simp add: Let_def AddCounterWithInitialValue_id)
  next
    case (Suc j)
    with 3 show ?thesis
      by (simp add: Let_def AddCounterWithInitialValue_id add.assoc)
  qed
next
  case (4 w c calls)
  then show ?case by (simp add: Counter_Close_id)
qed

lemma NewWriterForFile_idSequence:
  "NewWriterForFile filename statics maxNumbersOfCounters buf pid startTime = Some w
     \<Longrightarrow> w_idSequence w = - 1"
  by (auto simp: NewWriterForFile_def Let_def split: if_splits)

lemma sint_word_of_nat64: "n < 2 ^ 63 \<Longrightarrow> sint (word_of_nat n :: int64) = int n"
  by (simp add: signed_of_nat signed_take_bit_int_eq_self)

text \<open>
  C6. The ids a single writer issues count up from 0 without duplicates or gaps: the
  call number \<open>k + 1\<close> of AddCounter or AddCounterWithInitialValue draws the id \<open>k\<close>
  from the id sequence, whatever the calls before it returned, and a counter it returns
  carries that id. The id is an \<^verbatim>\<open>int64\<close>; read as a signed number it is \<open>k\<close> for the
  first \<open>2^63\<close> calls.
\<close>

theorem Writer_ids_count_up_from_zero:
  assumes new: "NewWriterForFile filename statics maxNumbersOfCounters buf pid startTime = Some w"
      and k: "k < length (run_writer w calls)"
  shows "snd (run_writer w calls ! k) = word_of_nat k
       \<and> (\<forall>c. fst (run_writer w calls ! k) = Inr c \<longrightarrow> c_id c = word_of_nat k)
       \<and> (k < 2 ^ 63 \<longrightarrow> sint (snd (run_writer w calls ! k)) = int k)"
  using run_writer_ids [OF k] NewWriterForFile_idSequence [OF new]
  by (simp add: sint_word_of_nat64)

text \<open>
  A second \<^verbatim>\<open>Writer.Close\<close> finds the closed flag set: it changes neither the writer nor
  the list of system calls.
\<close>

lemma Writer_Close_twice:
  "Writer_Close (fst (Writer_Close w calls)) (snd (Writer_Close w calls)) = Writer_Close w calls"
  by (simp add: Writer_Close_def)


lemma fresh_writer_encoder:
  "CountersMetadata (w_encoder fresh_writer) = NewBuffer 132 512 (\<lambda>k. 0)"
  by (simp add: fresh_writer_def NewWriterForFile_def Let_def StaticsLength_def MetadataLength_def
      ValuesLength_def NewEncoder_def NewEncoderWithBuffers_def SetPid_def SetStartTime_def
      SetStatics_def SetVersion_def Slice_def zeroBuffer_def NewBuffer_def HeaderLength_def
      Align_128)

lemma fresh_writer_first_add:
  "\<exists>c. fst (AddCounterWithInitialValue fresh_writer [97] 0) = Inr c"
proof -
  let ?e = "w_encoder fresh_writer"
  have cap: "Capacity (CountersMetadata ?e) = int (1 * metadataRecordLength)"
    by (simp add: fresh_writer_encoder NewBuffer_def Capacity_def)
  have fr: "slotFree (CountersMetadata ?e) 0"
    using slotStatus_zeroBuffer [of 512 0]
    by (simp add: fresh_writer_encoder slotFree_def zeroBuffer_def NewBuffer_def slot_defs
        buffer_defs)
  have "fst (AddCounter ?e (w_idSequence fresh_writer + 1) 0 [97]) = Inr (0 * valuesCounterLength)"
    using AddCounter_at [OF cap _ fr, of "w_idSequence fresh_writer + 1" 0 "[97]"] by simp
  then show ?thesis
    by (simp add: AddCounterWithInitialValue_def Let_def)
qed

theorem Writer_ids_count_up_from_zero_witness:
  "snd (run_writer fresh_writer [CallAddCounter [97], CallAddCounterWithInitialValue [98] 9] ! 1) = 1
   \<and> sint (snd (run_writer fresh_writer
                [CallAddCounter [97], CallAddCounterWithInitialValue [98] 9] ! 1)) = 1
   \<and> (\<exists>c. fst (run_writer fresh_writer
                [CallAddCounter [97], CallAddCounterWithInitialValue [98] 9] ! 0) = Inr c
          \<and> c_id c = 0)"
proof -
  let ?calls = "[CallAddCounter [97], CallAddCounterWithInitialValue [98] 9]"
  have new: "NewWriterForFile [102] [] 1 (zeroBuffer 4096) 1 2 = Some fresh_writer"
    by (simp add: fresh_writer_def NewWriterForFile_def Let_def)
  have k1: "1 < length (run_writer fresh_writer ?calls)"
    and k0: "0 < length (run_writer fresh_writer ?calls)"
    by (simp_all add: Let_def)
  from fresh_writer_first_add obtain c where
    c: "fst (run_writer fresh_writer ?calls ! 0) = Inr c"
    by (auto simp: Let_def Writer_AddCounter_def)
  from Writer_ids_count_up_from_zero [OF new k0] c have "c_id c = 0" by simp
  with c Writer_ids_count_up_from_zero [OF new k1] show ?thesis by auto
qed

section \<open>The statics section: sizes\<close>

lemma records_end_Nil [simp]: "records_end statics [] offset = offset"
  by (simp add: records_end_def)

lemma records_end_Cons [simp]:
  "records_end statics (label # labels) offset
     = records_end statics labels
         (offset + staticsRecordLength (length label) (length (lookup statics label)))"
  by (simp add: records_end_def)

lemma records_end_ge: "offset \<le> records_end statics labels offset"
proof (induction labels arbitrary: offset)
  case Nil
  then show ?case by simp
next
  case (Cons label labels)
  have "offset \<le> offset + staticsRecordLength (length label) (length (lookup statics label))"
    by simp
  also have "\<dots> \<le> records_end statics (label # labels) offset"
    using Cons.IH by simp
  finally show ?case .
qed

lemma SetStatics_loop_fits:
  "int (records_end statics labels offset) \<le> cap \<Longrightarrow>
   fst (SetStatics_loop cap statics labels offset) = None"
proof (induction labels arbitrary: offset)
  case Nil
  then show ?case by simp
next
  case (Cons label labels)
  let ?o = "offset + staticsRecordLength (length label) (length (lookup statics label))"
  from Cons.prems have e: "int (records_end statics labels ?o) \<le> cap" by simp
  have "int ?o \<le> int (records_end statics labels ?o)"
    using records_end_ge [of ?o statics labels] by simp
  with e have "int ?o \<le> cap" by linarith
  with Cons.IH [OF e] show ?case by (simp add: Let_def)
qed

lemma StaticsLength_nonempty:
  "statics \<noteq> [] \<Longrightarrow>
   StaticsLength statics = Align (int (records_end statics (sort (map fst statics)) 4)) 128"
  by (simp add: StaticsLength_def records_end_def)

lemma SetStatics_stores_fits:
  assumes "StaticsLength statics \<le> cap"
  shows "fst (SetStatics_stores cap statics) = None"
proof (cases "statics = []")
  case True
  then show ?thesis by (simp add: SetStatics_stores_def)
next
  case False
  let ?end = "records_end statics (sort (map fst statics)) 4"
  have "int ?end \<le> Align (int ?end) 128" by (rule Align_128_ge)
  with assms False have e: "int ?end \<le> cap" by (simp add: StaticsLength_nonempty)
  have "4 \<le> ?end" by (rule records_end_ge)
  with e have "4 \<le> cap" by linarith
  with False SetStatics_loop_fits [OF e] show ?thesis
    by (simp add: SetStatics_stores_def Let_def)
qed

text \<open>
  C10. When the statics buffer of the encoder has exactly the capacity
  \<open>StaticsLength M\<close>, as the writer sizes it, \<open>SetStatics M\<close> returns no error: neither
  of its two capacity checks fails.
\<close>

theorem SetStatics_sized_buffer_no_error:
  "Capacity (Statics e) = StaticsLength statics \<Longrightarrow> fst (SetStatics e statics) = None"
  by (simp add: SetStatics_def Let_def SetStatics_stores_fits)

lemma Capacity_Statics_NewEncoder:
  "Capacity (Statics (NewEncoder buf staticsLength metadataLength valuesLength)) = staticsLength"
  by (simp add: NewEncoder_def NewEncoderWithBuffers_def Let_def Slice_def NewBuffer_def Capacity_def)

theorem SetStatics_sized_buffer_no_error_witness:
  "Capacity (Statics (NewEncoder (zeroBuffer 4096) (StaticsLength [([107], [118, 118])]) 512 128))
     = StaticsLength [([107], [118, 118])]
   \<and> fst (SetStatics
            (NewEncoder (zeroBuffer 4096) (StaticsLength [([107], [118, 118])]) 512 128)
            [([107], [118, 118])]) = None"
  using SetStatics_sized_buffer_no_error
    [of "NewEncoder (zeroBuffer 4096) (StaticsLength [([107], [118, 118])]) 512 128"
        "[([107], [118, 118])]"]
  by (simp add: Capacity_Statics_NewEncoder)

section \<open>The statics section: writing and reading back\<close>

lemma mem_exec_store_outside:
  "a < store_offset st \<or> store_offset st + store_length st \<le> a \<Longrightarrow>
   mem (exec_store b st) a = mem b a"
  by (cases st) (auto simp: buffer_defs write_bytes_def)

lemma exec_stores_Nil [simp]: "exec_stores b [] = b"
  by (simp add: exec_stores_def)

lemma exec_stores_Cons [simp]: "exec_stores b (st # sts) = exec_stores (exec_store b st) sts"
  by (simp add: exec_stores_def)

lemma exec_stores_append: "exec_stores b (xs @ ys) = exec_stores (exec_stores b xs) ys"
  by (simp add: exec_stores_def)

lemma mem_exec_stores_outside:
  "\<forall>st \<in> set sts. a < store_offset st \<or> store_offset st + store_length st \<le> a \<Longrightarrow>
   mem (exec_stores b sts) a = mem b a"
  by (induction sts arbitrary: b) (simp_all add: mem_exec_store_outside)

lemma read_exec_stores_below:
  assumes "\<forall>st \<in> set sts. off + n \<le> store_offset st"
  shows "read_bytes (mem (exec_stores b sts)) off n = read_bytes (mem b) off n"
proof (rule read_bytes_cong)
  fix a assume "off \<le> a" "a < off + n"
  with assms have "\<forall>st \<in> set sts. a < store_offset st \<or> store_offset st + store_length st \<le> a"
    by fastforce
  then show "mem (exec_stores b sts) a = mem b a" by (rule mem_exec_stores_outside)
qed

lemma SetStatics_loop_stores_above:
  "st \<in> set (snd (SetStatics_loop cap statics labels offset)) \<Longrightarrow> offset \<le> store_offset st"
proof (induction labels arbitrary: offset)
  case Nil
  then show ?case by simp
next
  case (Cons label labels)
  then show ?case
    by (fastforce simp: Let_def split: if_splits)
qed

lemma Capacity_exec_stores [simp]: "Capacity (exec_stores b sts) = Capacity b"
proof (induction sts arbitrary: b)
  case Nil
  then show ?case by simp
next
  case (Cons st sts)
  have "Capacity (exec_store b st) = Capacity b"
    by (cases st) (simp_all add: buffer_defs)
  with Cons show ?case by simp
qed

lemma SetStatics_loop_holds:
  "fst (SetStatics_loop cap statics labels offset) = None \<Longrightarrow>
   holds_records (mem (exec_stores b (snd (SetStatics_loop cap statics labels offset)))) offset
     (records_of statics labels)"
proof (induction labels arbitrary: offset b)
  case Nil
  then show ?case by (simp add: records_of_def)
next
  case (Cons label labels)
  let ?v = "lookup statics label"
  let ?rl = "staticsRecordLength (length label) (length ?v)"
  let ?rest = "SetStatics_loop cap statics labels (offset + ?rl)"
  let ?b1 = "PutInt32Volatile
               (PutInt32
                  (PutBytes (PutBytes b (offset + 8) label) (offset + 8 + length label) ?v)
                  offset (word_of_nat (length label)))
               (offset + 4) (word_of_nat (length ?v))"
  from Cons.prems have fit: "\<not> int (offset + ?rl) > cap" and ok: "fst ?rest = None"
    by (auto simp: Let_def split: if_splits)
  have stores: "snd (SetStatics_loop cap statics (label # labels) offset)
      = [StorePutBytes (offset + 8) label, StorePutBytes (offset + 8 + length label) ?v,
         StorePutInt32 offset (word_of_nat (length label)),
         StorePutInt32Volatile (offset + 4) (word_of_nat (length ?v))] @ snd ?rest"
    using fit by (simp add: Let_def)
  have ex: "exec_stores b (snd (SetStatics_loop cap statics (label # labels) offset))
      = exec_stores ?b1 (snd ?rest)"
    unfolding stores by (simp add: exec_stores_append)
  have ge: "8 + length label + length ?v \<le> ?rl" by (rule staticsRecordLength_ge)
  have above: "\<forall>st \<in> set (snd ?rest). offset + ?rl \<le> store_offset st"
    using SetStatics_loop_stores_above by blast
  have frame: "read_bytes (mem (exec_stores ?b1 (snd ?rest))) off n = read_bytes (mem ?b1) off n"
    if "off + n \<le> offset + ?rl" for off n
    using above that by (intro read_exec_stores_below) fastforce
  have f1: "(le_word (read_bytes (mem (exec_stores ?b1 (snd ?rest))) offset 4) :: int32)
            = word_of_nat (length label)"
    using ge by (subst frame) (simp_all add: buffer_defs)
  have f2: "(le_word (read_bytes (mem (exec_stores ?b1 (snd ?rest))) (offset + 4) 4) :: int32)
            = word_of_nat (length ?v)"
    using ge by (subst frame) (simp_all add: buffer_defs)
  have f3: "read_bytes (mem (exec_stores ?b1 (snd ?rest))) (offset + 8) (length label) = label"
    using ge by (subst frame) (simp_all add: buffer_defs)
  have f4: "read_bytes (mem (exec_stores ?b1 (snd ?rest))) (offset + 8 + length label) (length ?v) = ?v"
    using ge by (subst frame) (simp_all add: buffer_defs)
  have f5: "holds_records (mem (exec_stores ?b1 (snd ?rest))) (offset + ?rl) (records_of statics labels)"
    by (rule Cons.IH [OF ok])
  show ?case
    unfolding ex using f1 f2 f3 f4 f5 by (simp add: records_of_def)
qed

lemma ForEachStatic_loop_holds:
  assumes "holds_records (mem b) offset recs"
      and "\<forall>(label, val) \<in> set recs. length label < 2 ^ 31 \<and> length val < 2 ^ 31"
  shows "ForEachStatic_loop b sink (length recs) offset s
       = Inr (feed (\<lambda>(label, val). sink label val) recs s)"
  using assms
proof (induction recs arbitrary: offset s)
  case Nil
  then show ?case by simp
next
  case (Cons r recs)
  obtain label val where r: "r = (label, val)" by (cases r)
  from Cons.prems r have
    h: "GetInt32 b offset = word_of_nat (length label)"
       "GetInt32 b (offset + 4) = word_of_nat (length val)"
       "read_bytes (mem b) (offset + 8) (length label) = label"
       "read_bytes (mem b) (offset + 8 + length label) (length val) = val"
    and rest: "holds_records (mem b) (offset + staticsRecordLength (length label) (length val)) recs"
    and len: "length label < 2 ^ 31" "length val < 2 ^ 31"
    and lens: "\<forall>(label, val) \<in> set recs. length label < 2 ^ 31 \<and> length val < 2 ^ 31"
    by (simp_all add: GetInt32_def)
  have IH: "ForEachStatic_loop b sink (length recs)
              (offset + staticsRecordLength (length label) (length val)) s'
            = Inr (feed (\<lambda>(label, val). sink label val) recs s')" for s'
    by (rule Cons.IH [OF rest lens])
  have sl: "sint (word_of_nat (length label) :: int32) = int (length label)"
           "sint (word_of_nat (length val) :: int32) = int (length val)"
    by (rule sint_word_of_nat32, rule len)+
  show ?case
    unfolding r
    by (simp add: Let_def h sl GetString_def GetBytes_def IH)
qed

lemma GetStaticValue_loop_holds:
  assumes "holds_records (mem b) offset recs"
      and "\<forall>(label, val) \<in> set recs. length label < 2 ^ 31 \<and> length val < 2 ^ 31"
  shows "GetStaticValue_loop b wanted (length recs) offset
       = (case map_of recs wanted of None \<Rightarrow> Inl (LabelNotFound wanted) | Some v \<Rightarrow> Inr v)"
  using assms
proof (induction recs arbitrary: offset)
  case Nil
  then show ?case by simp
next
  case (Cons r recs)
  obtain label val where r: "r = (label, val)" by (cases r)
  from Cons.prems r have
    h: "GetInt32 b offset = word_of_nat (length label)"
       "GetInt32 b (offset + 4) = word_of_nat (length val)"
       "read_bytes (mem b) (offset + 8) (length label) = label"
       "read_bytes (mem b) (offset + 8 + length label) (length val) = val"
    and rest: "holds_records (mem b) (offset + staticsRecordLength (length label) (length val)) recs"
    and len: "length label < 2 ^ 31" "length val < 2 ^ 31"
    and lens: "\<forall>(label, val) \<in> set recs. length label < 2 ^ 31 \<and> length val < 2 ^ 31"
    by (simp_all add: GetInt32_def)
  have IH: "GetStaticValue_loop b wanted (length recs)
              (offset + staticsRecordLength (length label) (length val))
            = (case map_of recs wanted of None \<Rightarrow> Inl (LabelNotFound wanted) | Some v \<Rightarrow> Inr v)"
    by (rule Cons.IH [OF rest lens])
  have sl: "sint (word_of_nat (length label) :: int32) = int (length label)"
           "sint (word_of_nat (length val) :: int32) = int (length val)"
    by (rule sint_word_of_nat32, rule len)+
  show ?case
    unfolding r
    by (auto simp: Let_def h sl GetBytes_def IH)
qed

lemma SetStatics_loop_None_fits:
  "fst (SetStatics_loop cap statics labels offset) = None \<Longrightarrow>
   int (records_end statics labels offset) \<le> cap \<or> labels = []"
proof (induction labels arbitrary: offset)
  case Nil
  then show ?case by simp
next
  case (Cons label labels)
  let ?o = "offset + staticsRecordLength (length label) (length (lookup statics label))"
  from Cons.prems have fit: "int ?o \<le> cap"
    and ok: "fst (SetStatics_loop cap statics labels ?o) = None"
    by (auto simp: Let_def split: if_splits)
  from Cons.IH [OF ok] fit show ?case by auto
qed

lemma records_end_label:
  "label \<in> set labels \<Longrightarrow>
   offset + 8 + length label + length (lookup statics label) \<le> records_end statics labels offset"
proof (induction labels arbitrary: offset)
  case Nil
  then show ?case by simp
next
  case (Cons l labels)
  let ?o = "offset + staticsRecordLength (length l) (length (lookup statics l))"
  show ?case
  proof (cases "label = l")
    case True
    have "offset + 8 + length l + length (lookup statics l) \<le> ?o"
      using staticsRecordLength_ge [of "length l" "length (lookup statics l)"] by simp
    also have "\<dots> \<le> records_end statics labels ?o" by (rule records_end_ge)
    finally show ?thesis using True by simp
  next
    case False
    with Cons.prems have "label \<in> set labels" by simp
    from Cons.IH [OF this, of ?o] show ?thesis by simp
  qed
qed

lemma records_end_count:
  "offset + 8 * length labels \<le> records_end statics labels offset"
proof (induction labels arbitrary: offset)
  case Nil
  then show ?case by simp
next
  case (Cons l labels)
  let ?o = "offset + staticsRecordLength (length l) (length (lookup statics l))"
  have "offset + 8 \<le> ?o"
    using staticsRecordLength_ge [of "length l" "length (lookup statics l)"] by simp
  with Cons.IH [of ?o] show ?case by simp
qed

lemma lookup_distinct:
  "distinct (map fst statics) \<Longrightarrow> (label, val) \<in> set statics \<Longrightarrow> lookup statics label = val"
  by (simp add: lookup_def)

lemma set_records_of:
  assumes "distinct (map fst statics)"
  shows "set (records_of statics (sort (map fst statics))) = set statics"
proof
  show "set (records_of statics (sort (map fst statics))) \<subseteq> set statics"
  proof
    fix r assume "r \<in> set (records_of statics (sort (map fst statics)))"
    then obtain p where p: "p \<in> set statics" and r: "r = (fst p, lookup statics (fst p))"
      by (auto simp: records_of_def)
    from lookup_distinct [OF assms, of "fst p" "snd p"] p have "lookup statics (fst p) = snd p"
      by simp
    with p r show "r \<in> set statics" by simp
  qed
next
  show "set statics \<subseteq> set (records_of statics (sort (map fst statics)))"
  proof
    fix p assume p: "p \<in> set statics"
    from lookup_distinct [OF assms, of "fst p" "snd p"] p have "lookup statics (fst p) = snd p"
      by simp
    then have "p = (fst p, lookup statics (fst p))" by simp
    moreover have "fst p \<in> set (sort (map fst statics))" using p by simp
    ultimately show "p \<in> set (records_of statics (sort (map fst statics)))"
      unfolding records_of_def by (metis (mono_tags, lifting) image_eqI set_map)
  qed
qed

lemma map_fst_records_of [simp]: "map fst (records_of statics labels) = labels"
  by (simp add: records_of_def comp_def)

lemma records_of_sorted:
  assumes "distinct (map fst statics)"
  shows "records_of statics (sort (map fst statics)) = sort_key fst statics"
proof (rule map_sorted_distinct_set_unique [where f = fst])
  show "inj_on fst (set (records_of statics (sort (map fst statics))) \<union> set (sort_key fst statics))"
    using assms by (simp add: set_records_of distinct_map)
  show "sorted (map fst (records_of statics (sort (map fst statics))))" by simp
  show "distinct (map fst (records_of statics (sort (map fst statics))))" using assms by simp
  show "sorted (map fst (sort_key fst statics))" by simp
  show "distinct (map fst (sort_key fst statics))"
    using assms by (simp add: distinct_map)
  show "set (records_of statics (sort (map fst statics))) = set (sort_key fst statics)"
    using assms by (simp add: set_records_of)
qed

lemma map_of_records_of:
  "label \<in> set labels \<Longrightarrow> map_of (records_of statics labels) label = Some (lookup statics label)"
  by (induction labels) (auto simp: records_of_def)

lemma SetStatics_layout:
  assumes ok: "fst (SetStatics e statics) = None"
  shows "GetInt32Volatile (Statics (snd (SetStatics e statics))) 0
           = word_of_nat (length statics)
       \<and> holds_records (mem (Statics (snd (SetStatics e statics)))) 4
           (records_of statics (sort (map fst statics)))"
proof (cases "statics = []")
  case True
  then show ?thesis
    by (simp add: SetStatics_def SetStatics_stores_def Let_def records_of_def buffer_defs)
next
  case False
  let ?cap = "Capacity (Statics e)"
  let ?labels = "sort (map fst statics)"
  let ?loop = "SetStatics_loop ?cap statics ?labels 4"
  let ?b0 = "PutInt32Volatile (Statics e) 0 (word_of_nat (length ?labels))"
  from ok False have ok': "fst ?loop = None"
    by (simp add: SetStatics_def SetStatics_stores_def Let_def split: if_splits)
  from ok False have st: "Statics (snd (SetStatics e statics)) = exec_stores ?b0 (snd ?loop)"
    by (simp add: SetStatics_def SetStatics_stores_def Let_def split: if_splits)
  have above: "\<forall>st \<in> set (snd ?loop). 0 + 4 \<le> store_offset st"
    using SetStatics_loop_stores_above by fastforce
  have count: "GetInt32Volatile (exec_stores ?b0 (snd ?loop)) 0 = word_of_nat (length statics)"
    unfolding GetInt32Volatile_def read_exec_stores_below [OF above]
    by (simp add: buffer_defs)
  have holds: "holds_records (mem (exec_stores ?b0 (snd ?loop))) 4 (records_of statics ?labels)"
    by (rule SetStatics_loop_holds [OF ok'])
  from count holds show ?thesis unfolding st by simp
qed

lemma SetStatics_bounds:
  assumes ok: "fst (SetStatics e statics) = None"
      and cap: "Capacity (Statics e) < 2 ^ 31"
  shows "length statics < 2 ^ 31
       \<and> (\<forall>(label, val) \<in> set (records_of statics (sort (map fst statics))).
             length label < 2 ^ 31 \<and> length val < 2 ^ 31)"
proof (cases "statics = []")
  case True
  then show ?thesis by (simp add: records_of_def)
next
  case False
  let ?cap = "Capacity (Statics e)"
  let ?labels = "sort (map fst statics)"
  let ?loop = "SetStatics_loop ?cap statics ?labels 4"
  from ok False have ok': "fst ?loop = None"
    by (simp add: SetStatics_def SetStatics_stores_def Let_def split: if_splits)
  have ne: "?labels \<noteq> []" using False by (metis length_0_conv length_map length_sort)
  with SetStatics_loop_None_fits [OF ok'] have fit: "int (records_end statics ?labels 4) \<le> ?cap"
    by simp
  with cap have small: "records_end statics ?labels 4 < 2 ^ 31" by simp
  have n: "length statics < 2 ^ 31"
    using records_end_count [of 4 ?labels statics] small by simp
  have lens: "\<forall>(label, val) \<in> set (records_of statics ?labels).
                length label < 2 ^ 31 \<and> length val < 2 ^ 31"
  proof (clarify)
    fix label val assume "(label, val) \<in> set (records_of statics ?labels)"
    then have l: "label \<in> set ?labels" and v: "val = lookup statics label"
      by (auto simp: records_of_def)
    from records_end_label [OF l, of 4 statics] small v
    show "length label < 2 ^ 31 \<and> length val < 2 ^ 31" by simp
  qed
  from n lens show ?thesis by simp
qed

text \<open>
  C5, as the code has it. Let \<open>M\<close> be a statics map with fewer than \<open>2^31\<close> entries whose
  labels and values are shorter than \<open>2^31\<close> bytes, the range of the \<^verbatim>\<open>int32\<close> count and
  length fields, and let SetStatics succeed on it. Then ForEachStatic invokes the sink
  once for each entry of \<open>M\<close>, with the entry's label and value, in ascending byte order
  of the labels, until the sink answers false, and GetStaticValue returns \<open>M[l]\<close> for
  every label \<open>l\<close> of \<open>M\<close>.
\<close>

theorem statics_round_trip:
  assumes dist: "distinct (map fst statics)"
      and ok: "fst (SetStatics e statics) = None"
      and n: "length statics < 2 ^ 31"
      and small: "\<forall>(label, val) \<in> set statics. length label < 2 ^ 31 \<and> length val < 2 ^ 31"
  shows "ForEachStatic (snd (SetStatics e statics)) sink s
           = Inr (feed (\<lambda>(label, val). sink label val) (sort_key fst statics) s)
       \<and> (\<forall>(label, val) \<in> set statics.
             GetStaticValue (snd (SetStatics e statics)) label = Inr val)"
proof -
  let ?d = "snd (SetStatics e statics)"
  let ?recs = "records_of statics (sort (map fst statics))"
  from SetStatics_layout [OF ok] have
    count: "GetInt32Volatile (Statics ?d) 0 = word_of_nat (length statics)"
    and holds: "holds_records (mem (Statics ?d)) 4 ?recs"
    by simp_all
  have lens: "\<forall>(label, val) \<in> set ?recs. length label < 2 ^ 31 \<and> length val < 2 ^ 31"
    using small unfolding set_records_of [OF dist] .
  have num: "nat (sint (GetInt32Volatile (Statics ?d) 0)) = length ?recs"
    unfolding count sint_word_of_nat32 [OF n] by (simp add: records_of_def)
  have iter: "ForEachStatic ?d sink s
      = Inr (feed (\<lambda>(label, val). sink label val) (sort_key fst statics) s)"
    unfolding ForEachStatic_def Let_def
    using ForEachStatic_loop_holds [OF holds lens, of sink s] num
    by (simp add: records_of_sorted [OF dist])
  have get: "GetStaticValue ?d label = Inr val" if "(label, val) \<in> set statics" for label val
  proof -
    from that have "label \<in> set (sort (map fst statics))" by force
    then have "map_of ?recs label = Some (lookup statics label)" by (rule map_of_records_of)
    with lookup_distinct [OF dist that] have "map_of ?recs label = Some val" by simp
    with GetStaticValue_loop_holds [OF holds lens, of label] num
    show ?thesis by (simp add: GetStaticValue_def Let_def)
  qed
  from iter get show ?thesis by blast
qed

lemma sort_two: "sort [[98], [97 :: byte]] = [[97], [98]]"
  by simp

lemma sort_key_two: "sort_key fst two_statics = [([97], [1]), ([98], [2])]"
  by (simp add: two_statics_def)

theorem statics_round_trip_witness:
  "ForEachStatic (snd (SetStatics two_statics_encoder two_statics)) record_static []
     = Inr [([97], [1]), ([98], [2])]
   \<and> GetStaticValue (snd (SetStatics two_statics_encoder two_statics)) [98] = Inr [2]"
proof -
  have dist: "distinct (map fst two_statics)"
    by (simp add: two_statics_def)
  have c: "Capacity (Statics two_statics_encoder) = StaticsLength two_statics"
    by (simp add: two_statics_encoder_def Capacity_Statics_NewEncoder)
  have ok: "fst (SetStatics two_statics_encoder two_statics) = None"
    using c by (simp add: SetStatics_def Let_def SetStatics_stores_fits)
  have n: "length two_statics < 2 ^ 31"
    by (simp add: two_statics_def)
  have small: "\<forall>(label, val) \<in> set two_statics. length label < 2 ^ 31 \<and> length val < 2 ^ 31"
    by (simp add: two_statics_def)
  from statics_round_trip [OF dist ok n small, of record_static "[]"]
  show ?thesis
    by (simp add: sort_key_two record_static_def) (simp add: two_statics_def)
qed

lemma sint_2_31: "sint (2147483648 :: int32) = - 2147483648"
  by simp

text \<open>
  C5 as stated fails for a map that fits its section but has a label of \<open>2^31\<close> bytes:
  SetStatics succeeds on the section sized by StaticsLength and stores the label length
  as the \<^verbatim>\<open>int32\<close> \<open>-2^31\<close>; ForEachStatic and GetStaticValue read it back negative and
  panic in \<^verbatim>\<open>GetBytes\<close>, so the sink is never invoked and no value is returned.
\<close>

theorem statics_round_trip_counterexample:
  "distinct (map fst big_statics)
   \<and> Capacity (Statics big_statics_encoder) = StaticsLength big_statics
   \<and> fst (SetStatics big_statics_encoder big_statics) = None
   \<and> ForEachStatic (snd (SetStatics big_statics_encoder big_statics)) record_static []
       = Inl Panic
   \<and> GetStaticValue (snd (SetStatics big_statics_encoder big_statics))
        (replicate 2147483648 97) = Inl Panic"
proof -
  let ?label = "replicate 2147483648 (97 :: byte)"
  let ?d = "snd (SetStatics big_statics_encoder big_statics)"
  have dist: "distinct (map fst big_statics)"
    by (simp add: big_statics_def)
  have c: "Capacity (Statics big_statics_encoder) = StaticsLength big_statics"
    by (simp add: big_statics_encoder_def Capacity_Statics_NewEncoder)
  have ok: "fst (SetStatics big_statics_encoder big_statics) = None"
    using c by (simp add: SetStatics_def Let_def SetStatics_stores_fits)
  have recs: "records_of big_statics (sort (map fst big_statics)) = [(?label, [])]"
    by (simp add: big_statics_def records_of_def lookup_def)
  from SetStatics_layout [OF ok] have
    count: "GetInt32Volatile (Statics ?d) 0 = 1"
    and len: "GetInt32 (Statics ?d) 4 = 2147483648"
    unfolding recs by (simp_all add: big_statics_def GetInt32_def)
  have neg: "sint (GetInt32 (Statics ?d) 4) < 0"
    unfolding len sint_2_31 by simp
  have iter: "ForEachStatic ?d record_static [] = Inl Panic"
    using neg by (simp add: ForEachStatic_def Let_def count GetString_def GetBytes_def)
  have get: "GetStaticValue ?d ?label = Inl Panic"
    using neg by (simp add: GetStaticValue_def Let_def count GetBytes_def)
  from dist c ok iter get show ?thesis by simp
qed

section \<open>The statics section: order of the stores\<close>

lemma SetStatics_loop_stores:
  "fst (SetStatics_loop cap statics labels offset) = None \<Longrightarrow>
   snd (SetStatics_loop cap statics labels offset) = records_stores offset (records_of statics labels)"
proof (induction labels arbitrary: offset)
  case Nil
  then show ?case by (simp add: records_of_def)
next
  case (Cons label labels)
  let ?o = "offset + staticsRecordLength (length label) (length (lookup statics label))"
  from Cons.prems have fit: "\<not> int ?o > cap"
    and ok: "fst (SetStatics_loop cap statics labels ?o) = None"
    by (auto simp: Let_def split: if_splits)
  from Cons.IH [OF ok] fit show ?case
    by (simp add: Let_def records_of_def record_stores_def)
qed

text \<open>
  C8, as the code has it. A successful SetStatics issues its stores in this order: first
  the statics count, through \<^verbatim>\<open>PutInt32Volatile\<close> at offset 0; then the records in
  ascending order of their labels, each one as label bytes, value bytes and label length
  by plain writes (\<^verbatim>\<open>PutBytes\<close>, \<^verbatim>\<open>PutInt32\<close>) and, as the last store of the record,
  the value length through \<^verbatim>\<open>PutInt32Volatile\<close>. The count is stored before the
  records, not after them.
\<close>

theorem SetStatics_count_first:
  assumes dist: "distinct (map fst statics)"
      and ok: "fst (SetStatics_stores cap statics) = None"
  shows "snd (SetStatics_stores cap statics)
       = StorePutInt32Volatile staticsNumberOfStaticsOffset (word_of_nat (length statics))
         # records_stores staticsRecordsOffset (sort_key fst statics)"
proof (cases "statics = []")
  case True
  then show ?thesis by (simp add: SetStatics_stores_def)
next
  case False
  with ok have ok': "fst (SetStatics_loop cap statics (sort (map fst statics)) 4) = None"
    by (simp add: SetStatics_stores_def Let_def split: if_splits)
  from ok False SetStatics_loop_stores [OF ok'] show ?thesis
    by (simp add: SetStatics_stores_def Let_def records_of_sorted [OF dist] split: if_splits)
qed

lemma records_stores_offsets:
  "st \<in> set (records_stores offset recs) \<Longrightarrow> offset \<le> store_offset st"
proof (induction recs arbitrary: offset)
  case Nil
  then show ?case by simp
next
  case (Cons r recs)
  then show ?case by (fastforce simp: record_stores_def)
qed

lemma two_statics_stores:
  "SetStatics_stores 128 two_statics
     = (None, [StorePutInt32Volatile 0 2,
               StorePutBytes 12 [97], StorePutBytes 13 [1],
               StorePutInt32 4 1, StorePutInt32Volatile 8 1,
               StorePutBytes 24 [98], StorePutBytes 25 [2],
               StorePutInt32 16 1, StorePutInt32Volatile 20 1])"
  by (simp add: SetStatics_stores_def two_statics_def Let_def lookup_def staticsRecordLength_eq)

theorem SetStatics_count_first_witness:
  "snd (SetStatics_stores 128 two_statics)
     = StorePutInt32Volatile 0 2 # records_stores 4 [([97], [1]), ([98], [2])]"
proof -
  have dist: "distinct (map fst two_statics)" by (simp add: two_statics_def)
  have ok: "fst (SetStatics_stores 128 two_statics) = None" by (simp add: two_statics_stores)
  from SetStatics_count_first [OF dist ok] show ?thesis
    by (simp add: sort_key_two) (simp add: two_statics_def)
qed

text \<open>
  C8 as stated fails on the order of the stores: for a map of two statics the first
  store of SetStatics is the count and the last one is the value length of the second
  record, so the count is not stored after the records.
\<close>

theorem SetStatics_count_after_records_counterexample:
  "fst (SetStatics_stores 128 two_statics) = None
   \<and> hd (snd (SetStatics_stores 128 two_statics)) = StorePutInt32Volatile 0 2
   \<and> last (snd (SetStatics_stores 128 two_statics)) = StorePutInt32Volatile 20 1
   \<and> \<not> spec_count_after_records (snd (SetStatics_stores 128 two_statics))"
proof -
  have "\<not> spec_count_after_records (snd (SetStatics_stores 128 two_statics))"
  proof
    assume "spec_count_after_records (snd (SetStatics_stores 128 two_statics))"
    then obtain recs n where
      eq: "snd (SetStatics_stores 128 two_statics)
             = records_stores 4 recs @ [StorePutInt32Volatile 0 n]"
      by (auto simp: spec_count_after_records_def)
    then have "last (snd (SetStatics_stores 128 two_statics)) = StorePutInt32Volatile 0 n"
      by simp
    then show False by (simp add: two_statics_stores)
  qed
  then show ?thesis by (simp add: two_statics_stores)
qed

end
